theory Spec2Isabelle
  imports Main "HOL-Library.Word"
begin

unbundle bit_operations_syntax

section \<open>Machine types and status codes\<close>

text \<open>
  The driver is C for the Windows kernel.  \<open>NTSTATUS\<close> is a signed 32-bit value,
  \<open>ULONG\<close> an unsigned one, \<open>LARGE_INTEGER.QuadPart\<close> a signed 64-bit value and
  \<open>WCHAR\<close> a 16-bit character.  All of them are words here; where the source compares
  signed values the model reads the word with \<open>sint\<close>.  The numeric values of the
  status codes and attribute bits are those of the Windows headers (ntstatus.h, wdm.h);
  the repository only uses their names.
\<close>

type_synonym NTSTATUS = "32 word"
type_synonym ULONG = "32 word"
type_synonym USHORT = "16 word"
type_synonym WCHAR = "16 word"
type_synonym LONGLONG = "64 word"
type_synonym HANDLE = "64 word"

definition NT_SUCCESS :: "NTSTATUS \<Rightarrow> bool" where
  "NT_SUCCESS Status = (0 \<le> sint Status)"

definition STATUS_SUCCESS :: NTSTATUS where "STATUS_SUCCESS = 0x00000000"
definition STATUS_TIMEOUT :: NTSTATUS where "STATUS_TIMEOUT = 0x00000102"
definition STATUS_PENDING :: NTSTATUS where "STATUS_PENDING = 0x00000103"
definition STATUS_REPARSE :: NTSTATUS where "STATUS_REPARSE = 0x00000104"
definition STATUS_BUFFER_OVERFLOW :: NTSTATUS where "STATUS_BUFFER_OVERFLOW = 0x80000005"
definition STATUS_ACCESS_VIOLATION :: NTSTATUS where "STATUS_ACCESS_VIOLATION = 0xC0000005"
definition STATUS_END_OF_FILE :: NTSTATUS where "STATUS_END_OF_FILE = 0xC0000011"
definition STATUS_ACCESS_DENIED :: NTSTATUS where "STATUS_ACCESS_DENIED = 0xC0000022"
definition STATUS_PORT_DISCONNECTED :: NTSTATUS where "STATUS_PORT_DISCONNECTED = 0xC0000037"
definition STATUS_INSUFFICIENT_RESOURCES :: NTSTATUS where "STATUS_INSUFFICIENT_RESOURCES = 0xC000009A"
definition STATUS_INVALID_PARAMETER_1 :: NTSTATUS where "STATUS_INVALID_PARAMETER_1 = 0xC00000EF"
definition STATUS_INVALID_PARAMETER_2 :: NTSTATUS where "STATUS_INVALID_PARAMETER_2 = 0xC00000F0"
definition STATUS_INVALID_PARAMETER_3 :: NTSTATUS where "STATUS_INVALID_PARAMETER_3 = 0xC00000F1"
definition STATUS_NAME_TOO_LONG :: NTSTATUS where "STATUS_NAME_TOO_LONG = 0xC0000106"
definition STATUS_INVALID_BUFFER_SIZE :: NTSTATUS where "STATUS_INVALID_BUFFER_SIZE = 0xC0000206"
definition STATUS_NOT_FOUND :: NTSTATUS where "STATUS_NOT_FOUND = 0xC0000225"
definition STATUS_NOT_A_REPARSE_POINT :: NTSTATUS where "STATUS_NOT_A_REPARSE_POINT = 0xC0000275"
definition STATUS_IO_REPARSE_DATA_INVALID :: NTSTATUS where "STATUS_IO_REPARSE_DATA_INVALID = 0xC0000278"

section \<open>Fetch.c: opening the source file\<close>

text \<open>
  \<open>LcOpenFile\<close> calls \<open>ZwOpenFile\<close> and, after an access-denied status only,
  \<open>LcOpenFileInUserMode\<close>.  Both are the environment of the function: each is a
  function from the path to the status it returns and the value it leaves in the local
  \<open>fileHandle\<close> (\<open>0\<close> is \<open>NULL\<close>).  The result records the returned status, the
  value stored through \<open>Handle\<close> (written on success only), whether the user-mode
  client was asked, and the handle closed by the \<open>__finally\<close> block.
\<close>

record open_result =
  or_status :: NTSTATUS
  or_Handle :: "HANDLE option"
  or_delegated :: bool
  or_closed :: "HANDLE option"

definition LcOpenFile_finally :: "NTSTATUS \<Rightarrow> HANDLE \<Rightarrow> bool \<Rightarrow> open_result" where
  "LcOpenFile_finally status fileHandle delegated =
     (if NT_SUCCESS status
      then \<lparr>or_status = status, or_Handle = Some fileHandle,
            or_delegated = delegated, or_closed = None\<rparr>
      else \<lparr>or_status = status, or_Handle = None, or_delegated = delegated,
            or_closed = (if fileHandle \<noteq> 0 then Some fileHandle else None)\<rparr>)"

definition LcOpenFile ::
  "('p \<Rightarrow> NTSTATUS \<times> HANDLE) \<Rightarrow> ('p \<Rightarrow> NTSTATUS \<times> HANDLE) \<Rightarrow> 'p \<Rightarrow> open_result" where
  "LcOpenFile ZwOpenFile LcOpenFileInUserMode FilePath =
     (let (status, fileHandle) = ZwOpenFile FilePath in
      if \<not> NT_SUCCESS status \<and> status = STATUS_ACCESS_DENIED
      then
        (let (notificationStatus, fileHandle') = LcOpenFileInUserMode FilePath;
             status' = (if notificationStatus = STATUS_PORT_DISCONNECTED
                           \<or> notificationStatus = STATUS_TIMEOUT
                        then status else notificationStatus)
         in LcOpenFile_finally status' fileHandle' True)
      else LcOpenFile_finally status fileHandle False)"

section \<open>FileLocks.c: the list of per-file locks\<close>

text \<open>
  \<open>RtlCompareUnicodeString\<close> and the upcase table it folds characters with belong to
  the kernel, so the folding function is a parameter \<open>upcase\<close> of everything that
  compares names (the source always passes \<open>CaseInSensitive = TRUE\<close>).  The
  comparison returns the difference of the first pair of characters that differ after
  folding, and the difference of the byte lengths when one string is a prefix of the
  other.
\<close>

fun RtlCompareUnicodeString :: "(WCHAR \<Rightarrow> WCHAR) \<Rightarrow> WCHAR list \<Rightarrow> WCHAR list \<Rightarrow> int" where
  "RtlCompareUnicodeString upcase [] s2 = - (2 * int (length s2))"
| "RtlCompareUnicodeString upcase (c1 # s1) [] = 2 * int (length (c1 # s1))"
| "RtlCompareUnicodeString upcase (c1 # s1) (c2 # s2) =
     (if upcase c1 = upcase c2 then RtlCompareUnicodeString upcase s1 s2
      else uint (upcase c1) - uint (upcase c2))"

text \<open>
  A sample folding function, for evaluating the model on concrete names: the kernel's
  table restricted to the ASCII letters.
\<close>

definition upcase_ascii :: "WCHAR \<Rightarrow> WCHAR" where
  "upcase_ascii c = (if 0x61 \<le> c \<and> c \<le> 0x7A then c - 0x20 else c)"

text \<open>
  A \<open>FILE_LOCK_ENTRY\<close>.  \<open>Event\<close> is the state of the \<open>KEVENT\<close> (\<open>True\<close> is
  signaled); \<open>RefCount\<close> is a \<open>LONG\<close>.  Callers hold a pointer to the event inside
  the entry, so an entry carries its address, and \<open>FileLocksList\<close> is the list of
  entries from \<open>Flink\<close> of the head onwards.
\<close>

record FILE_LOCK_ENTRY =
  FileName :: "WCHAR list"
  Event :: bool
  RefCount :: "32 word"
  Address :: nat

text \<open>
  The search loop of \<open>LcGetFileLock\<close> followed by \<open>RefCount++\<close> on the entry it
  stops at: the first entry whose name compares equal.
\<close>

fun reference_entry ::
  "(WCHAR \<Rightarrow> WCHAR) \<Rightarrow> WCHAR list \<Rightarrow> FILE_LOCK_ENTRY list \<Rightarrow> (nat \<times> FILE_LOCK_ENTRY list) option" where
  "reference_entry upcase name [] = None"
| "reference_entry upcase name (e # es) =
     (if RtlCompareUnicodeString upcase name (FileName e) = 0
      then Some (Address e, e\<lparr>RefCount := RefCount e + 1\<rparr> # es)
      else map_option (\<lambda>(a, es'). (a, e # es')) (reference_entry upcase name es))"

text \<open>
  The entry \<open>LcGetFileLock\<close> builds when the search finds nothing:
  \<open>KeInitializeEvent(..., SynchronizationEvent, TRUE)\<close> and \<open>RefCount = 0\<close>.
\<close>

definition new_lock_entry :: "WCHAR list \<Rightarrow> nat \<Rightarrow> FILE_LOCK_ENTRY" where
  "new_lock_entry name a = \<lparr>FileName = name, Event = True, RefCount = 0, Address = a\<rparr>"

text \<open>
  \<open>gl_Event\<close> is the pointer stored through \<open>Event\<close> (the address of the entry),
  \<open>gl_freed\<close> the address handed to \<open>LcFreeNonPagedBuffer\<close> by the \<open>__finally\<close>
  block.  \<open>alloc\<close> is what \<open>ExAllocatePoolWithTag\<close> returns for the new entry
  (\<open>None\<close> is \<open>NULL\<close>) and \<open>copy\<close> the status of \<open>LcCopyUnicodeString\<close>.
  \<open>LcAllocateNonPagedBuffer\<close> leaves its output untouched when it fails, so after a
  failed allocation \<open>fileLockEntry\<close> still points at the entry the search loop visited
  last, and that is the pointer the \<open>__finally\<close> block frees.
\<close>

record get_lock_result =
  gl_status :: NTSTATUS
  gl_Event :: "nat option"
  gl_list :: "FILE_LOCK_ENTRY list"
  gl_freed :: "nat option"

definition LcGetFileLock ::
  "(WCHAR \<Rightarrow> WCHAR) \<Rightarrow> nat option \<Rightarrow> NTSTATUS \<Rightarrow> WCHAR list \<Rightarrow> FILE_LOCK_ENTRY list
     \<Rightarrow> get_lock_result" where
  "LcGetFileLock upcase alloc copy name FileLocksList =
     (case reference_entry upcase name FileLocksList of
        Some (a, es) \<Rightarrow>
          \<lparr>gl_status = STATUS_SUCCESS, gl_Event = Some a, gl_list = es, gl_freed = None\<rparr>
      | None \<Rightarrow>
          (case alloc of
             None \<Rightarrow>
               \<lparr>gl_status = STATUS_INSUFFICIENT_RESOURCES, gl_Event = None,
                gl_list = FileLocksList,
                gl_freed = (if FileLocksList = [] then None
                            else Some (Address (last FileLocksList)))\<rparr>
           | Some a \<Rightarrow>
               if \<not> NT_SUCCESS copy
               then \<lparr>gl_status = copy, gl_Event = None, gl_list = FileLocksList,
                     gl_freed = Some a\<rparr>
               else
                 (let e = new_lock_entry name a in
                  \<lparr>gl_status = STATUS_SUCCESS, gl_Event = Some a,
                   gl_list = e\<lparr>RefCount := RefCount e + 1\<rparr> # FileLocksList,
                   gl_freed = None\<rparr>)))"

text \<open>
  \<open>LcReleaseFileLock\<close>: the first entry whose event is the one given loses a reference;
  it is unlinked and freed when the count is not positive any more, and its event is set
  otherwise.  The result is the new list and the address freed.
\<close>

fun LcReleaseFileLock :: "nat \<Rightarrow> FILE_LOCK_ENTRY list \<Rightarrow> FILE_LOCK_ENTRY list \<times> nat option" where
  "LcReleaseFileLock ev [] = ([], None)"
| "LcReleaseFileLock ev (e # es) =
     (if Address e = ev
      then (let e' = e\<lparr>RefCount := RefCount e - 1\<rparr> in
            if sint (RefCount e') \<le> 0 then (es, Some (Address e))
            else (e'\<lparr>Event := True\<rparr> # es, None))
      else (let (es', freed) = LcReleaseFileLock ev es in (e # es', freed)))"

section \<open>ReparsePoints.c: reading and clearing the reparse point\<close>

definition STATUS_IO_REPARSE_TAG_MISMATCH :: NTSTATUS where "STATUS_IO_REPARSE_TAG_MISMATCH = 0xC0000277"

definition FILE_ATTRIBUTE_READONLY :: ULONG where "FILE_ATTRIBUTE_READONLY = 0x00000001"
definition FILE_ATTRIBUTE_ARCHIVE :: ULONG where "FILE_ATTRIBUTE_ARCHIVE = 0x00000020"
definition FILE_ATTRIBUTE_REPARSE_POINT :: ULONG where "FILE_ATTRIBUTE_REPARSE_POINT = 0x00000400"
definition FILE_ATTRIBUTE_OFFLINE :: ULONG where "FILE_ATTRIBUTE_OFFLINE = 0x00001000"
definition FILE_ATTRIBUTE_NOT_CONTENT_INDEXED :: ULONG where "FILE_ATTRIBUTE_NOT_CONTENT_INDEXED = 0x00002000"

text \<open>Globals.h: the reparse tag of the driver and the attributes of a stub file.\<close>

definition LC_REPARSE_TAG :: ULONG where "LC_REPARSE_TAG = 0x00000340"

definition LC_FILE_ATTRIBUTES :: ULONG where
  "LC_FILE_ATTRIBUTES = FILE_ATTRIBUTE_OFFLINE OR FILE_ATTRIBUTE_REPARSE_POINT"

text \<open>The flag macros of the kernel headers.\<close>

definition FlagOn :: "ULONG \<Rightarrow> ULONG \<Rightarrow> bool" where
  "FlagOn Flags SingleFlag = (Flags AND SingleFlag \<noteq> 0)"

definition ClearFlag :: "ULONG \<Rightarrow> ULONG \<Rightarrow> ULONG" where
  "ClearFlag Flags Flag = Flags AND NOT Flag"

definition SetFlag :: "ULONG \<Rightarrow> ULONG \<Rightarrow> ULONG" where
  "SetFlag Flags Flag = Flags OR Flag"

subsection \<open>LcGetReparsePointData\<close>

text \<open>
  \<open>wcslen\<close> scans memory for the first zero character; \<open>None\<close> means that the memory
  given holds none, so that the scan leaves it.
\<close>

fun wcslen :: "WCHAR list \<Rightarrow> nat option" where
  "wcslen [] = None"
| "wcslen (c # cs) = (if c = 0 then Some 0 else map_option Suc (wcslen cs))"

text \<open>
  The buffer \<open>FSCTL_GET_REPARSE_POINT\<close> fills, read through \<open>LC_REPARSE_DATA\<close>:
  \<open>rd_ReparseDataLength\<close> is the declared length of the payload, \<open>rd_RemoteFileSize\<close>
  the eight bytes of the first payload field and \<open>rd_RemoteFilePath\<close> the characters
  that the allocation holds from the member \<open>RemoteFilePath\<close> to its end.
\<close>

record LC_REPARSE_DATA =
  rd_ReparseTag :: ULONG
  rd_ReparseDataLength :: USHORT
  rd_RemoteFileSize :: LONGLONG
  rd_RemoteFilePath :: "WCHAR list"

text \<open>
  The environment of one call: the statuses of the two \<open>FltFsControlFile\<close> calls and of
  the two allocations, the buffer the second call fills, and the readable memory that
  follows the characters of \<open>rd_RemoteFilePath\<close> (the buffer is allocated with exactly the
  declared length, and \<open>wcslen\<close> does not know where it ends).  For a declared length
  below 8 the allocation ends before the member \<open>RemoteFilePath\<close>: it holds none of its
  characters, and \<open>re_memory_after\<close> is the memory from the member on, which starts
  8 - \<open>ReparseDataLength\<close> bytes behind the end of the allocation.
\<close>

record reparse_env =
  re_fsctl_size :: NTSTATUS
  re_alloc :: NTSTATUS
  re_fsctl_data :: NTSTATUS
  re_reparseData :: LC_REPARSE_DATA
  re_memory_after :: "WCHAR list"
  re_string_alloc :: NTSTATUS

text \<open>
  The function returns a status and, on success, the size and the path; \<open>OutOfBounds\<close>
  stands for an access outside all memory the model knows (behaviour the C code leaves
  undefined).
\<close>

datatype reparse_result =
    Returned NTSTATUS "(LONGLONG \<times> WCHAR list) option"
  | OutOfBounds

text \<open>
  \<open>sizeof(reparseData->ReparseBuffer)\<close>: a \<open>LONGLONG\<close> and a \<open>WCHAR[1]\<close>, padded
  to the alignment of the \<open>LONGLONG\<close>.
\<close>

definition sizeof_ReparseBuffer :: nat where
  "sizeof_ReparseBuffer = 16"

text \<open>Utilities.c: the argument checks of \<open>LcAllocateUnicodeString\<close>, then the allocation.\<close>

definition LcAllocateUnicodeString :: "NTSTATUS \<Rightarrow> USHORT \<Rightarrow> NTSTATUS" where
  "LcAllocateUnicodeString alloc Size =
     (if Size = 0 then STATUS_INVALID_PARAMETER_2
      else if Size mod 2 \<noteq> 0 then STATUS_INVALID_PARAMETER_2
      else alloc)"

definition LcGetReparsePointData :: "reparse_env \<Rightarrow> reparse_result" where
  "LcGetReparsePointData env =
     (if re_fsctl_size env \<noteq> STATUS_BUFFER_OVERFLOW
      then Returned STATUS_NOT_A_REPARSE_POINT None
      else if \<not> NT_SUCCESS (re_alloc env) then Returned (re_alloc env) None
      else if \<not> NT_SUCCESS (re_fsctl_data env) then Returned (re_fsctl_data env) None
      else
        let reparseData = re_reparseData env;
            memory = rd_RemoteFilePath reparseData @ re_memory_after env
        in
        case wcslen memory of
          None \<Rightarrow> OutOfBounds
        | Some n \<Rightarrow>
            let remoteFilePathLength = (n + 1) * 2 in
            if \<not> unat (rd_ReparseDataLength reparseData)
                    < sizeof_ReparseBuffer + remoteFilePathLength
            then Returned STATUS_IO_REPARSE_DATA_INVALID None
            else
              let status = LcAllocateUnicodeString (re_string_alloc env)
                             (of_nat remoteFilePathLength)
              in
              if \<not> NT_SUCCESS status then Returned status None
              else if unat (of_nat remoteFilePathLength :: USHORT) < remoteFilePathLength
              then OutOfBounds
              else Returned status (Some (rd_RemoteFileSize reparseData, take n memory)))"

subsection \<open>LcUntagFile\<close>

text \<open>
  What the function can observe and change of the file: its attribute word and the tag
  of its reparse point (\<open>None\<close> when the file has none).  The file system is the
  environment: \<open>untag_env\<close> gives the status of each call in the order of the source
  (\<open>ue_untag\<close> is the status of \<open>FltUntagFile\<close> when the file carries the tag of
  the driver).  A successful \<open>FltSetInformationFile\<close> stores the attribute word it is
  given, and a file without a reparse point makes \<open>FltUntagFile\<close> return
  \<open>STATUS_NOT_A_REPARSE_POINT\<close>.  The time stamps of \<open>FILE_BASIC_INFORMATION\<close> are
  written back as they were read and are left out.
\<close>

record file_state =
  fs_FileAttributes :: ULONG
  fs_ReparseTag :: "ULONG option"

record untag_env =
  ue_query :: NTSTATUS
  ue_set_readonly :: NTSTATUS
  ue_create :: NTSTATUS
  ue_untag :: NTSTATUS
  ue_set :: NTSTATUS

definition FltSetInformationFile :: "NTSTATUS \<Rightarrow> ULONG \<Rightarrow> file_state \<Rightarrow> file_state" where
  "FltSetInformationFile st attrs f =
     (if NT_SUCCESS st then f\<lparr>fs_FileAttributes := attrs\<rparr> else f)"

definition FltUntagFile :: "NTSTATUS \<Rightarrow> file_state \<Rightarrow> NTSTATUS \<times> file_state" where
  "FltUntagFile st f =
     (case fs_ReparseTag f of
        None \<Rightarrow> (STATUS_NOT_A_REPARSE_POINT, f)
      | Some t \<Rightarrow>
          if t \<noteq> LC_REPARSE_TAG then (STATUS_IO_REPARSE_TAG_MISMATCH, f)
          else if NT_SUCCESS st
          then (st, f\<lparr>fs_FileAttributes :=
                        ClearFlag (fs_FileAttributes f) FILE_ATTRIBUTE_REPARSE_POINT,
                      fs_ReparseTag := None\<rparr>)
          else (st, f))"

definition LcUntagFile :: "untag_env \<Rightarrow> file_state \<Rightarrow> NTSTATUS \<times> file_state" where
  "LcUntagFile env f =
     (if \<not> NT_SUCCESS (ue_query env) then (ue_query env, f)
      else
        let basicInformation = fs_FileAttributes f;
            readOnlyFile = FlagOn basicInformation FILE_ATTRIBUTE_READONLY;
            basicInformation1 = (if readOnlyFile
                                 then ClearFlag basicInformation FILE_ATTRIBUTE_READONLY
                                 else basicInformation)
        in
        if readOnlyFile \<and> \<not> NT_SUCCESS (ue_set_readonly env) then (ue_set_readonly env, f)
        else
          let f1 = (if readOnlyFile
                    then FltSetInformationFile (ue_set_readonly env) basicInformation1 f
                    else f)
          in
          if \<not> NT_SUCCESS (ue_create env) then (ue_create env, f1)
          else
            let (status, f2) = FltUntagFile (ue_untag env) f1 in
            if \<not> NT_SUCCESS status \<and> status \<noteq> STATUS_NOT_A_REPARSE_POINT then (status, f2)
            else
              let basicInformation2 =
                    ClearFlag (ClearFlag (ClearFlag basicInformation1
                       FILE_ATTRIBUTE_REPARSE_POINT) FILE_ATTRIBUTE_OFFLINE)
                       FILE_ATTRIBUTE_NOT_CONTENT_INDEXED;
                  basicInformation3 = (if readOnlyFile
                                       then SetFlag basicInformation2 FILE_ATTRIBUTE_READONLY
                                       else basicInformation2)
              in (ue_set env, FltSetInformationFile (ue_set env) basicInformation3 f2))"

text \<open>The three attribute bits \<open>LcUntagFile\<close> clears.\<close>

definition LC_UNTAG_ATTRIBUTES :: ULONG where
  "LC_UNTAG_ATTRIBUTES =
     FILE_ATTRIBUTE_REPARSE_POINT OR FILE_ATTRIBUTE_OFFLINE OR FILE_ATTRIBUTE_NOT_CONTENT_INDEXED"

section \<open>Operations.c: the operation callbacks\<close>

text \<open>
  Context.h: the stream context attached to a file that still has to be fetched.
  \<open>LcGetStreamContext\<close> fails when the file has none, which is \<open>None\<close> here.
\<close>

record LC_STREAM_CONTEXT =
  UseCustomHandler :: bool
  RemoteFileSize :: LONGLONG
  RemoteFilePath :: "WCHAR list"

datatype FLT_PREOP_CALLBACK_STATUS =
    FLT_PREOP_SUCCESS_WITH_CALLBACK
  | FLT_PREOP_SUCCESS_NO_CALLBACK
  | FLT_PREOP_SYNCHRONIZE
  | FLT_PREOP_COMPLETE

subsection \<open>Query information\<close>

text \<open>
  The information classes the callbacks name; every other class is
  \<open>FileOtherInformation\<close>.
\<close>

datatype FILE_INFORMATION_CLASS =
    FileBasicInformation
  | FileStandardInformation
  | FileAllInformation
  | FileEndOfFileInformation
  | FileNetworkOpenInformation
  | FileAttributeTagInformation
  | FileOtherInformation

text \<open>
  The callback data of a query: the three tests on the origin of the I/O, the class, the
  status the lower drivers completed the request with, and the two members of the
  information buffer the callbacks touch.  \<open>qd_EndOfFile\<close> is the end-of-file member of
  the class (of \<open>StandardInformation\<close> in \<open>FILE_ALL_INFORMATION\<close>) and
  \<open>qd_FileAttributes\<close> its attribute member (of \<open>BasicInformation\<close> in
  \<open>FILE_ALL_INFORMATION\<close>); a class without one of them ignores that field.
\<close>

record query_data =
  qd_generated_io :: bool
  qd_fs_filter_operation :: bool
  qd_reissued_io :: bool
  qd_FileInformationClass :: FILE_INFORMATION_CLASS
  qd_Status :: NTSTATUS
  qd_EndOfFile :: LONGLONG
  qd_FileAttributes :: ULONG

definition PreQueryInformationOperationCallback :: "query_data \<Rightarrow> FLT_PREOP_CALLBACK_STATUS" where
  "PreQueryInformationOperationCallback Data =
     (if qd_generated_io Data \<or> qd_fs_filter_operation Data \<or> qd_reissued_io Data
      then FLT_PREOP_SUCCESS_NO_CALLBACK
      else case qd_FileInformationClass Data of
             FileAllInformation \<Rightarrow> FLT_PREOP_SYNCHRONIZE
           | FileStandardInformation \<Rightarrow> FLT_PREOP_SYNCHRONIZE
           | FileEndOfFileInformation \<Rightarrow> FLT_PREOP_SYNCHRONIZE
           | FileNetworkOpenInformation \<Rightarrow> FLT_PREOP_SYNCHRONIZE
           | _ \<Rightarrow> FLT_PREOP_SUCCESS_NO_CALLBACK)"

definition fix_EndOfFile :: "LC_STREAM_CONTEXT \<Rightarrow> query_data \<Rightarrow> query_data" where
  "fix_EndOfFile context Data =
     (if qd_EndOfFile Data = 0 then Data\<lparr>qd_EndOfFile := RemoteFileSize context\<rparr> else Data)"

definition strip_attributes :: "query_data \<Rightarrow> query_data" where
  "strip_attributes Data =
     Data\<lparr>qd_FileAttributes := qd_FileAttributes Data AND NOT LC_FILE_ATTRIBUTES\<rparr>"

definition PostQueryInformationOperationCallback ::
  "bool \<Rightarrow> LC_STREAM_CONTEXT option \<Rightarrow> query_data \<Rightarrow> query_data" where
  "PostQueryInformationOperationCallback draining LcGetStreamContext Data =
     (if draining then Data
      else if \<not> NT_SUCCESS (qd_Status Data) \<and> qd_Status Data \<noteq> STATUS_BUFFER_OVERFLOW
      then Data
      else case LcGetStreamContext of
             None \<Rightarrow> Data
           | Some context \<Rightarrow>
               (case qd_FileInformationClass Data of
                  FileAllInformation \<Rightarrow> strip_attributes (fix_EndOfFile context Data)
                | FileNetworkOpenInformation \<Rightarrow> strip_attributes (fix_EndOfFile context Data)
                | FileBasicInformation \<Rightarrow> strip_attributes Data
                | FileAttributeTagInformation \<Rightarrow> strip_attributes Data
                | FileStandardInformation \<Rightarrow> fix_EndOfFile context Data
                | FileEndOfFileInformation \<Rightarrow> fix_EndOfFile context Data
                | FileOtherInformation \<Rightarrow> Data))"

text \<open>
  What the caller of a query gets back: the filter manager runs the post-operation
  callback only when the pre-operation callback asked for it.
\<close>

definition query_information ::
  "bool \<Rightarrow> LC_STREAM_CONTEXT option \<Rightarrow> query_data \<Rightarrow> query_data" where
  "query_information draining LcGetStreamContext Data =
     (if PreQueryInformationOperationCallback Data = FLT_PREOP_SYNCHRONIZE
      then PostQueryInformationOperationCallback draining LcGetStreamContext Data
      else Data)"

definition size_bearing :: "FILE_INFORMATION_CLASS \<Rightarrow> bool" where
  "size_bearing c \<longleftrightarrow> c = FileStandardInformation \<or> c = FileEndOfFileInformation \<or>
     c = FileAllInformation \<or> c = FileNetworkOpenInformation"

subsection \<open>Post-create\<close>

definition FILE_SUPERSEDED :: "64 word" where "FILE_SUPERSEDED = 0x00000000"
definition FILE_CREATED :: "64 word" where "FILE_CREATED = 0x00000002"
definition FILE_OVERWRITTEN :: "64 word" where "FILE_OVERWRITTEN = 0x00000003"

definition FILE_WRITE_THROUGH :: ULONG where "FILE_WRITE_THROUGH = 0x00000002"
definition FILE_RANDOM_ACCESS :: ULONG where "FILE_RANDOM_ACCESS = 0x00000800"
definition FILE_OPEN_FOR_BACKUP_INTENT :: ULONG where "FILE_OPEN_FOR_BACKUP_INTENT = 0x00004000"
definition FILE_OPEN_REPARSE_POINT :: ULONG where "FILE_OPEN_REPARSE_POINT = 0x00200000"

definition FILE_SHARE_READ :: USHORT where "FILE_SHARE_READ = 0x0001"
definition FILE_SHARE_WRITE :: USHORT where "FILE_SHARE_WRITE = 0x0002"

definition DefaultCreateOptions :: ULONG where
  "DefaultCreateOptions = FILE_OPEN_REPARSE_POINT OR FILE_OPEN_FOR_BACKUP_INTENT
     OR FILE_RANDOM_ACCESS OR FILE_WRITE_THROUGH"

definition DefaultShareAccess :: USHORT where
  "DefaultShareAccess = FILE_SHARE_READ OR FILE_SHARE_WRITE"

text \<open>Configuration.h: the bits of \<open>DRIVER_OPERATION_MODE\<close>.\<close>

definition FetchEnabled :: ULONG where "FetchEnabled = 1"
definition WatchEnabled :: ULONG where "WatchEnabled = 2"

text \<open>The stream name \<open>::$DATA\<close>.\<close>

definition dataStreamName :: "WCHAR list" where
  "dataStreamName = [0x3A, 0x3A, 0x24, 0x44, 0x41, 0x54, 0x41]"

text \<open>
  The callback data of a create after the lower drivers completed it: \<open>IoStatus\<close>, the
  tag of \<open>TagData\<close> (\<open>None\<close> for a null pointer), the create parameters the callback
  rewrites, and \<open>DeletePending\<close> of the file object.  The completion context carries the
  stream part of the name, the operation mode and the report rate.
\<close>

record create_data =
  cd_Status :: NTSTATUS
  cd_Information :: "64 word"
  cd_TagData :: "ULONG option"
  cd_Options :: ULONG
  cd_ShareAccess :: USHORT
  cd_DeletePending :: bool

record CREATE_COMPLETION_CONTEXT =
  cc_Stream :: "WCHAR list"
  cc_OperationMode :: ULONG
  cc_ReportRate :: ULONG

text \<open>
  The steps the callback runs after it recognised its tag are the environment: the
  \<open>IoStatus\<close> that \<open>FltReissueSynchronousIo\<close> leaves, and the statuses of
  \<open>LcUntagFile\<close>, \<open>LcGetReparsePointData\<close> and \<open>LcFindOrCreateStreamContext\<close>.
  The result is the callback data handed back and whether \<open>FltCancelFileOpen\<close> was
  called.  The ETW event of the watch mode changes nothing of this and is left out.
\<close>

record create_env =
  ce_reissue :: "NTSTATUS \<times> 64 word"
  ce_untag :: NTSTATUS
  ce_reparse_data :: NTSTATUS
  ce_context :: NTSTATUS

record create_result =
  cr_Data :: create_data
  cr_cancelled :: bool

definition reissue_needed :: "create_data \<Rightarrow> bool" where
  "reissue_needed Data \<longleftrightarrow>
     cd_Options Data AND DefaultCreateOptions \<noteq> DefaultCreateOptions \<or>
     cd_ShareAccess Data AND DefaultShareAccess \<noteq> DefaultShareAccess"

definition file_replaced :: "64 word \<Rightarrow> bool" where
  "file_replaced Information \<longleftrightarrow> Information = FILE_CREATED \<or>
     Information = FILE_OVERWRITTEN \<or> Information = FILE_SUPERSEDED"

definition reissue :: "create_env \<Rightarrow> create_data \<Rightarrow> create_data" where
  "reissue env Data =
     Data\<lparr>cd_Options := cd_Options Data OR DefaultCreateOptions,
          cd_ShareAccess := cd_ShareAccess Data OR DefaultShareAccess,
          cd_Status := fst (ce_reissue env),
          cd_Information := snd (ce_reissue env)\<rparr>"

text \<open>The \<open>__try\<close> block: the value of \<open>status\<close> it ends with, and the callback data.\<close>

definition PostCreate_try ::
  "(WCHAR \<Rightarrow> WCHAR) \<Rightarrow> bool \<Rightarrow> CREATE_COMPLETION_CONTEXT \<Rightarrow> create_env \<Rightarrow> create_data
     \<Rightarrow> NTSTATUS \<times> create_data" where
  "PostCreate_try upcase draining completionContext env Data =
     (if draining \<or> \<not> NT_SUCCESS (cd_Status Data) \<or> cd_DeletePending Data
      then (STATUS_SUCCESS, Data)
      else if cd_Status Data \<noteq> STATUS_REPARSE \<or> cd_TagData Data = None
              \<or> cd_TagData Data \<noteq> Some LC_REPARSE_TAG
      then (STATUS_SUCCESS, Data)
      else if \<not> FlagOn (cc_OperationMode completionContext) FetchEnabled
      then (STATUS_SUCCESS, Data)
      else if cc_Stream completionContext \<noteq> []
              \<and> RtlCompareUnicodeString upcase (cc_Stream completionContext) dataStreamName \<noteq> 0
      then (STATUS_SUCCESS, Data)
      else
        let (status, Data1) =
              (if reissue_needed Data
               then (fst (ce_reissue env), reissue env Data)
               else (STATUS_SUCCESS, Data))
        in
        if \<not> NT_SUCCESS status then (status, Data1)
        else if file_replaced (cd_Information Data1) then (ce_untag env, Data1)
        else if \<not> NT_SUCCESS (ce_reparse_data env) then (ce_reparse_data env, Data1)
        else (ce_context env, Data1))"

text \<open>The \<open>__finally\<close> block.\<close>

definition PostCreate_finally :: "NTSTATUS \<times> create_data \<Rightarrow> create_result" where
  "PostCreate_finally r =
     (let (status, Data) = r in
      if \<not> NT_SUCCESS status \<and> status \<noteq> STATUS_NOT_A_REPARSE_POINT
      then \<lparr>cr_Data = Data\<lparr>cd_Status := status, cd_Information := 0\<rparr>, cr_cancelled = True\<rparr>
      else \<lparr>cr_Data = Data, cr_cancelled = False\<rparr>)"

definition PostCreateOperationCallback ::
  "(WCHAR \<Rightarrow> WCHAR) \<Rightarrow> bool \<Rightarrow> CREATE_COMPLETION_CONTEXT option \<Rightarrow> create_env \<Rightarrow> create_data
     \<Rightarrow> create_result" where
  "PostCreateOperationCallback upcase draining CompletionContext env Data =
     (case CompletionContext of
        None \<Rightarrow> \<lparr>cr_Data = Data, cr_cancelled = False\<rparr>
      | Some completionContext \<Rightarrow>
          PostCreate_finally (PostCreate_try upcase draining completionContext env Data))"

text \<open>
  The create hit the reparse tag of the driver and the callback goes on to its steps.
\<close>

definition hit_reparse_tag ::
  "(WCHAR \<Rightarrow> WCHAR) \<Rightarrow> bool \<Rightarrow> CREATE_COMPLETION_CONTEXT \<Rightarrow> create_data \<Rightarrow> bool" where
  "hit_reparse_tag upcase draining completionContext Data \<longleftrightarrow>
     \<not> draining \<and> \<not> cd_DeletePending Data \<and>
     cd_Status Data = STATUS_REPARSE \<and> cd_TagData Data = Some LC_REPARSE_TAG \<and>
     FlagOn (cc_OperationMode completionContext) FetchEnabled \<and>
     (cc_Stream completionContext = [] \<or>
      RtlCompareUnicodeString upcase (cc_Stream completionContext) dataStreamName = 0)"

text \<open>
  The status of the first post-create step that fails, if one does: the reissued open,
  then either the untagging of a replaced file or the reading of the reparse data
  followed by the stream context.
\<close>

definition failing_step :: "create_env \<Rightarrow> create_data \<Rightarrow> NTSTATUS option" where
  "failing_step env Data =
     (if reissue_needed Data \<and> \<not> NT_SUCCESS (fst (ce_reissue env))
      then Some (fst (ce_reissue env))
      else if file_replaced (if reissue_needed Data then snd (ce_reissue env)
                             else cd_Information Data)
      then (if NT_SUCCESS (ce_untag env) then None else Some (ce_untag env))
      else if \<not> NT_SUCCESS (ce_reparse_data env) then Some (ce_reparse_data env)
      else if \<not> NT_SUCCESS (ce_context env) then Some (ce_context env)
      else None)"

section \<open>Configuration.c and Communication.c: the paths to watch\<close>

text \<open>
  \<open>RtlPrefixUnicodeString(String1, String2, TRUE)\<close>: the first string is a prefix of the
  second after folding.
\<close>

fun RtlPrefixUnicodeString :: "(WCHAR \<Rightarrow> WCHAR) \<Rightarrow> WCHAR list \<Rightarrow> WCHAR list \<Rightarrow> bool" where
  "RtlPrefixUnicodeString upcase [] s2 = True"
| "RtlPrefixUnicodeString upcase (c1 # s1) [] = False"
| "RtlPrefixUnicodeString upcase (c1 # s1) (c2 # s2) =
     (upcase c1 = upcase c2 \<and> RtlPrefixUnicodeString upcase s1 s2)"

text \<open>
  \<open>wcsrchr\<close>: the index of the last occurrence of a character in a C string, which ends
  at the first zero character.
\<close>

fun last_index :: "WCHAR list \<Rightarrow> WCHAR \<Rightarrow> nat option" where
  "last_index [] c = None"
| "last_index (x # xs) c =
     (case last_index xs c of
        Some i \<Rightarrow> Some (Suc i)
      | None \<Rightarrow> if x = c then Some 0 else None)"

definition wcsrchr :: "WCHAR list \<Rightarrow> WCHAR \<Rightarrow> nat option" where
  "wcsrchr s c = last_index (takeWhile (\<lambda>x. x \<noteq> 0) s) c"

text \<open>
  \<open>PathsToWatch\<close> is the list of the paths of its entries, from \<open>Flink\<close> of the head
  onwards.  A path is the characters of a \<open>UNICODE_STRING\<close> whose buffer ends with a
  terminator, as \<open>RtlInitUnicodeStringEx\<close> builds it.
\<close>

definition LcValidatePath :: "WCHAR list \<Rightarrow> NTSTATUS" where
  "LcValidatePath Path =
     (if 2 * length Path < 2 then STATUS_INVALID_PARAMETER_1
      else case wcsrchr Path 0x5C of
             None \<Rightarrow> STATUS_INVALID_PARAMETER_1
           | Some lastPathSeparator \<Rightarrow>
               let endOfString = length Path - 1 in
               if lastPathSeparator < endOfString
                  \<and> (Path @ [0]) ! (lastPathSeparator + 1) \<noteq> 0
               then STATUS_INVALID_PARAMETER_1
               else STATUS_SUCCESS)"

definition LcIsPathWatched :: "(WCHAR \<Rightarrow> WCHAR) \<Rightarrow> WCHAR list list \<Rightarrow> WCHAR list \<Rightarrow> bool" where
  "LcIsPathWatched upcase PathsToWatch Path =
     list_ex (\<lambda>pathEntry. RtlPrefixUnicodeString upcase pathEntry Path) PathsToWatch"

text \<open>
  \<open>alloc\<close> and \<open>copy\<close> are the statuses of \<open>LcAllocateNonPagedBuffer\<close> and
  \<open>LcCopyUnicodeString\<close> for the new entry.
\<close>

definition LcAddPathToWatch ::
  "(WCHAR \<Rightarrow> WCHAR) \<Rightarrow> NTSTATUS \<Rightarrow> NTSTATUS \<Rightarrow> WCHAR list \<Rightarrow> WCHAR list list
     \<Rightarrow> NTSTATUS \<times> WCHAR list list" where
  "LcAddPathToWatch upcase alloc copy Path PathsToWatch =
     (if \<not> NT_SUCCESS (LcValidatePath Path) then (STATUS_INVALID_PARAMETER_1, PathsToWatch)
      else if LcIsPathWatched upcase PathsToWatch Path then (STATUS_SUCCESS, PathsToWatch)
      else if \<not> NT_SUCCESS alloc then (alloc, PathsToWatch)
      else if \<not> NT_SUCCESS copy then (copy, PathsToWatch)
      else (copy, Path # PathsToWatch))"

primrec LcClearPathsToWatch :: "WCHAR list list \<Rightarrow> WCHAR list list" where
  "LcClearPathsToWatch [] = []"
| "LcClearPathsToWatch (pathEntry # PathsToWatch) = LcClearPathsToWatch PathsToWatch"

text \<open>
  The command buffer of \<open>SetWatchPaths\<close>.  \<open>Data\<close> is the readable memory from the
  member \<open>Data\<close> onwards, of which the input buffer covers the first
  \<open>InputBufferSize - 4\<close> bytes; a scan that finds no terminator in it raises the
  exception \<open>we_exception\<close>, which the handler turns into its status.  \<open>we_alloc\<close>
  and \<open>we_copy\<close> give the statuses of the two allocations for the path with a given
  index.
\<close>

record WATCH_PATHS =
  wp_PathCount :: ULONG
  wp_Data :: "WCHAR list"

record watch_env =
  we_alloc :: "nat \<Rightarrow> NTSTATUS"
  we_copy :: "nat \<Rightarrow> NTSTATUS"
  we_exception :: NTSTATUS

text \<open>
  \<open>RtlInitUnicodeStringEx\<close> refuses a string longer than a \<open>UNICODE_STRING\<close> can
  describe.
\<close>

definition RtlInitUnicodeStringEx :: "nat \<Rightarrow> NTSTATUS" where
  "RtlInitUnicodeStringEx n = (if 32766 < n then STATUS_NAME_TOO_LONG else STATUS_SUCCESS)"

text \<open>
  The result of the handler: its status, the list of paths to watch it leaves, and the
  strings it passed to \<open>LcAddPathToWatch\<close> with success, in the order of the buffer.
\<close>

record watch_result =
  wr_status :: NTSTATUS
  wr_paths :: "WCHAR list list"
  wr_processed :: "WCHAR list list"

text \<open>
  The \<open>for\<close> loop, by the number of iterations left: \<open>idx\<close> is the loop counter,
  \<open>pos\<close> the offset of \<open>buffer\<close> from \<open>Data\<close> in characters, \<open>memory\<close> the
  memory from \<open>buffer\<close> onwards and \<open>status\<close> the local variable.
\<close>

fun watch_paths_loop ::
  "(WCHAR \<Rightarrow> WCHAR) \<Rightarrow> watch_env \<Rightarrow> nat \<Rightarrow> nat \<Rightarrow> nat \<Rightarrow> nat \<Rightarrow> WCHAR list \<Rightarrow> NTSTATUS
     \<Rightarrow> WCHAR list list \<Rightarrow> watch_result" where
  "watch_paths_loop upcase env InputBufferSize 0 idx pos memory status PathsToWatch =
     \<lparr>wr_status = status, wr_paths = PathsToWatch, wr_processed = []\<rparr>"
| "watch_paths_loop upcase env InputBufferSize (Suc k) idx pos memory status PathsToWatch =
     (case wcslen memory of
        None \<Rightarrow> \<lparr>wr_status = we_exception env, wr_paths = PathsToWatch, wr_processed = []\<rparr>
      | Some currentStringLength \<Rightarrow>
          if \<not> 4 + 2 * pos + (currentStringLength + 1) * 2 \<le> InputBufferSize
          then \<lparr>wr_status = STATUS_INVALID_BUFFER_SIZE, wr_paths = PathsToWatch,
                wr_processed = []\<rparr>
          else if \<not> NT_SUCCESS (RtlInitUnicodeStringEx currentStringLength)
          then \<lparr>wr_status = RtlInitUnicodeStringEx currentStringLength,
                wr_paths = PathsToWatch, wr_processed = []\<rparr>
          else
            let currentString = take currentStringLength memory;
                (status', PathsToWatch') =
                   LcAddPathToWatch upcase (we_alloc env idx) (we_copy env idx)
                     currentString PathsToWatch
            in
            if \<not> NT_SUCCESS status'
            then \<lparr>wr_status = status', wr_paths = PathsToWatch', wr_processed = []\<rparr>
            else
              let r = watch_paths_loop upcase env InputBufferSize k (idx + 1)
                        (pos + currentStringLength + 1)
                        (drop (currentStringLength + 1) memory) status' PathsToWatch'
              in r\<lparr>wr_processed := currentString # wr_processed r\<rparr>)"

definition LcSetWatchPathsHandler ::
  "(WCHAR \<Rightarrow> WCHAR) \<Rightarrow> watch_env \<Rightarrow> WATCH_PATHS option \<Rightarrow> nat \<Rightarrow> WCHAR list list
     \<Rightarrow> watch_result" where
  "LcSetWatchPathsHandler upcase env InputBuffer InputBufferSize PathsToWatch =
     (case InputBuffer of
        None \<Rightarrow> \<lparr>wr_status = STATUS_INVALID_PARAMETER_1, wr_paths = PathsToWatch,
                 wr_processed = []\<rparr>
      | Some watchPaths \<Rightarrow>
          if \<not> 4 \<le> InputBufferSize
          then \<lparr>wr_status = STATUS_INVALID_PARAMETER_2, wr_paths = PathsToWatch,
                wr_processed = []\<rparr>
          else watch_paths_loop upcase env InputBufferSize (unat (wp_PathCount watchPaths)) 0 0
                 (wp_Data watchPaths) STATUS_SUCCESS (LcClearPathsToWatch PathsToWatch))"

text \<open>
  What a list of paths to watch becomes when a path is added with success: nothing
  changes when the path is watched already.
\<close>

definition add_watched :: "(WCHAR \<Rightarrow> WCHAR) \<Rightarrow> WCHAR list list \<Rightarrow> WCHAR list \<Rightarrow> WCHAR list list" where
  "add_watched upcase PathsToWatch Path =
     (if LcIsPathWatched upcase PathsToWatch Path then PathsToWatch else Path # PathsToWatch)"

section \<open>Fetch.c: copying the file by chunks\<close>

definition ChunkSize :: ULONG where "ChunkSize = 128 * 1024"

definition MaxChunks :: ULONG where "MaxChunks = 4"

text \<open>
  A \<open>FILE_CHUNK\<close> without the bytes of its buffer.  Both cursors of the copy loop
  point into the same list of chunks, so the chunks live in a store indexed by address
  and the doubly linked list is the list \<open>ring\<close> of addresses, from \<open>Flink\<close> of
  the head onwards.  Chunks are freed only when the function returns, so the address of
  a new chunk is the number of chunks allocated before it.
\<close>

record FILE_CHUNK =
  BufferSize :: ULONG
  BytesInBuffer :: ULONG

text \<open>
  The local variables of \<open>LcFetchFileByChunks\<close>, followed by the part of the I/O system
  the loop interacts with: whether the source handle is signaled, the I/O status blocks
  that the reads and the write in flight will complete with, and, as a record of what
  happened, the writes issued (offset, length and the I/O status block that the file
  system completes the write with) and the byte counts that were added to
  \<open>totalBytesWritten\<close>.
\<close>

record fetch_state =
  chunks :: "nat \<Rightarrow> FILE_CHUNK"
  ring :: "nat list"
  chunkListLength :: ULONG
  readChunk :: "nat option"
  writeChunk :: "nat option"
  eof :: bool
  waitingForRead :: bool
  writeEvent :: bool
  statusBlock :: "NTSTATUS \<times> 64 word"
  writeCallbackContext :: "NTSTATUS \<times> ULONG"
  remainingBytes :: LONGLONG
  totalBytesRead :: LONGLONG
  totalBytesWritten :: LONGLONG
  sourceFileOffset :: LONGLONG
  destinationFileOffset :: LONGLONG
  fetchStatus :: NTSTATUS
  sourceSignaled :: bool
  readsInFlight :: "(NTSTATUS \<times> 64 word) list"
  writeInFlight :: "(NTSTATUS \<times> 64 word) option"
  writesIssued :: "(LONGLONG \<times> ULONG \<times> (NTSTATUS \<times> 64 word)) list"
  writesCounted :: "ULONG list"

text \<open>
  The environment of one iteration of the loop.  Three flags say what has happened by
  the time the iteration looks: the oldest read in flight has completed, the write in
  flight has completed before \<open>writeEvent\<close> is sampled, or it completes while
  \<open>LcGetNextAvailableChunk\<close> waits for it.  \<open>io_ZwReadFile\<close> and
  \<open>io_FltWriteFile\<close> answer a request (offset and length) with the status the call
  returns and the I/O status block its completion will deliver; \<open>io_alloc_chunk\<close> and
  \<open>io_alloc_buffer\<close> are the statuses of the two pool allocations of a new chunk.
\<close>

record io_env =
  io_read_done :: bool
  io_write_done :: bool
  io_write_done_in_wait :: bool
  io_alloc_chunk :: NTSTATUS
  io_alloc_buffer :: NTSTATUS
  io_ZwReadFile :: "LONGLONG \<Rightarrow> ULONG \<Rightarrow> NTSTATUS \<times> (NTSTATUS \<times> 64 word)"
  io_FltWriteFile :: "LONGLONG \<Rightarrow> ULONG \<Rightarrow> NTSTATUS \<times> (NTSTATUS \<times> 64 word)"

text \<open>
  A source that holds \<open>actual\<close> bytes and a target that writes all it is given, both
  completing asynchronously.
\<close>

definition source_file :: "LONGLONG \<Rightarrow> LONGLONG \<Rightarrow> ULONG \<Rightarrow> NTSTATUS \<times> (NTSTATUS \<times> 64 word)" where
  "source_file actual offset len =
     (STATUS_PENDING,
      if actual \<le> offset then (STATUS_END_OF_FILE, 0)
      else (STATUS_SUCCESS, min (ucast len) (actual - offset)))"

definition target_file :: "LONGLONG \<Rightarrow> ULONG \<Rightarrow> NTSTATUS \<times> (NTSTATUS \<times> 64 word)" where
  "target_file offset len = (STATUS_PENDING, (STATUS_SUCCESS, ucast len))"

text \<open>The completion of the oldest read in flight, and \<open>LcWriteCallback\<close>.\<close>

definition complete_read :: "fetch_state \<Rightarrow> fetch_state" where
  "complete_read s =
     (case readsInFlight s of
        [] \<Rightarrow> s
      | r # rs \<Rightarrow> s\<lparr>statusBlock := r, sourceSignaled := True, readsInFlight := rs\<rparr>)"

definition LcWriteCallback :: "fetch_state \<Rightarrow> fetch_state" where
  "LcWriteCallback s =
     (case writeInFlight s of
        None \<Rightarrow> s
      | Some (Status, Information) \<Rightarrow>
          s\<lparr>writeCallbackContext :=
               (Status, if NT_SUCCESS Status then ucast Information else 0),
            writeEvent := True, writeInFlight := None\<rparr>)"

text \<open>
  \<open>LcAddNewChunk\<close>: \<open>Entry\<close> is the chunk before which the new one is linked, or
  \<open>None\<close> for the list head, which links it at the tail.
\<close>

fun insert_before :: "nat \<Rightarrow> nat option \<Rightarrow> nat list \<Rightarrow> nat list" where
  "insert_before new Entry [] = [new]"
| "insert_before new Entry (x # xs) =
     (if Entry = Some x then new # x # xs else x # insert_before new Entry xs)"

definition LcAllocateNonPagedAlignedBuffer :: "NTSTATUS \<Rightarrow> ULONG \<Rightarrow> NTSTATUS" where
  "LcAllocateNonPagedAlignedBuffer alloc Size =
     (if Size = 0 then STATUS_INVALID_PARAMETER_3 else alloc)"

definition LcAddNewChunk ::
  "io_env \<Rightarrow> nat option \<Rightarrow> LONGLONG \<Rightarrow> fetch_state \<Rightarrow> NTSTATUS \<times> nat option \<times> fetch_state" where
  "LcAddNewChunk env Entry RemainingBytes s =
     (let bufferSize = min ChunkSize (ucast RemainingBytes) in
      if \<not> NT_SUCCESS (io_alloc_chunk env) then (io_alloc_chunk env, None, s)
      else if \<not> NT_SUCCESS (LcAllocateNonPagedAlignedBuffer (io_alloc_buffer env) bufferSize)
      then (LcAllocateNonPagedAlignedBuffer (io_alloc_buffer env) bufferSize, None, s)
      else
        let newChunk = length (ring s) in
        (LcAllocateNonPagedAlignedBuffer (io_alloc_buffer env) bufferSize, Some newChunk,
         s\<lparr>chunks := (chunks s)(newChunk := \<lparr>BufferSize = bufferSize, BytesInBuffer = 0\<rparr>),
           ring := insert_before newChunk Entry (ring s),
           chunkListLength := chunkListLength s + 1\<rparr>))"

text \<open>
  \<open>LcInitializeChunksList\<close>: up to two chunks; a failure frees what was allocated.
\<close>

definition LcInitializeChunksList :: "io_env \<Rightarrow> LONGLONG \<Rightarrow> fetch_state \<Rightarrow> NTSTATUS \<times> fetch_state" where
  "LcInitializeChunksList env FileSize s =
     (let s0 = s\<lparr>chunkListLength := 0, ring := []\<rparr> in
      case LcAddNewChunk env None FileSize s0 of
        (status, None, s1) \<Rightarrow> (status, s0)
      | (status, Some chunk, s1) \<Rightarrow>
          let FileSize1 = FileSize - ucast (BufferSize (chunks s1 chunk)) in
          if sint FileSize1 \<le> 0 then (status, s1)
          else
            (case LcAddNewChunk env None FileSize1 s1 of
               (status2, None, s2) \<Rightarrow> (status2, s0)
             | (status2, Some chunk2, s2) \<Rightarrow> (status2, s2)))"

text \<open>
  The chunk after the current one, wrapping from the last chunk to the first; without a
  current chunk, the first.  The list is not empty when the loop runs; \<open>None\<close> is
  returned for an empty list, where the source would read the list head as a chunk.
\<close>

definition next_chunk :: "nat list \<Rightarrow> nat option \<Rightarrow> nat option" where
  "next_chunk r CurrentChunk =
     (case r of
        [] \<Rightarrow> None
      | first # _ \<Rightarrow>
          (case CurrentChunk of
             None \<Rightarrow> Some first
           | Some c \<Rightarrow>
               (case dropWhile (\<lambda>x. x \<noteq> c) r of
                  _ # n # _ \<Rightarrow> Some n
                | _ \<Rightarrow> Some first)))"

text \<open>
  The outcome of a piece of the loop body: it goes on with a new state, leaves the
  \<open>__try\<close> block with a status, or (never, on a list that was initialised) follows a
  pointer that is no chunk.
\<close>

datatype 'a outcome = Go 'a | Leave NTSTATUS fetch_state | Fault

text \<open>
  \<open>KeWaitForSingleObject(WriteOperationEvent, ..., WaitTimeout)\<close> on the notification
  event: satisfied at once when the event is set, satisfied when the write in flight
  completes in time, and \<open>STATUS_TIMEOUT\<close> otherwise.
\<close>

definition wait_for_write :: "io_env \<Rightarrow> fetch_state \<Rightarrow> NTSTATUS \<times> fetch_state" where
  "wait_for_write env s =
     (if writeEvent s then (STATUS_SUCCESS, s)
      else if io_write_done_in_wait env \<and> writeInFlight s \<noteq> None
      then (STATUS_SUCCESS, LcWriteCallback s)
      else (STATUS_TIMEOUT, s))"

text \<open>
  \<open>LcGetNextAvailableChunk\<close> for the read cursor (\<open>ReadOperation = TRUE\<close>) and for
  the write cursor.  The result is the new value of the cursor.
\<close>

definition LcGetNextAvailableChunk_read :: "io_env \<Rightarrow> fetch_state \<Rightarrow> (nat \<times> fetch_state) outcome" where
  "LcGetNextAvailableChunk_read env s =
     (case next_chunk (ring s) (readChunk s) of
        None \<Rightarrow> Fault
      | Some chunk \<Rightarrow>
          if BytesInBuffer (chunks s chunk) \<noteq> 0
          then
            if chunkListLength s < MaxChunks
            then (case LcAddNewChunk env (Some chunk) (remainingBytes s) s of
                    (status, None, s') \<Rightarrow> Leave status s'
                  | (status, Some newChunk, s') \<Rightarrow> Go (newChunk, s'\<lparr>fetchStatus := status\<rparr>))
            else (case wait_for_write env s of
                    (status, s') \<Rightarrow>
                      if \<not> NT_SUCCESS status then Leave status s'
                      else Go (chunk, s'\<lparr>fetchStatus := status\<rparr>))
          else Go (chunk, s\<lparr>fetchStatus := STATUS_SUCCESS\<rparr>))"

definition LcGetNextAvailableChunk_write :: "fetch_state \<Rightarrow> (nat \<times> fetch_state) outcome" where
  "LcGetNextAvailableChunk_write s =
     (case next_chunk (ring s) (writeChunk s) of
        None \<Rightarrow> Fault
      | Some chunk \<Rightarrow> Go (chunk, s))"

text \<open>
  The read side of an iteration, in two parts: taking over the completed read of the
  current chunk, then moving to the next chunk and issuing a read for it.
\<close>

definition take_read :: "fetch_state \<Rightarrow> fetch_state outcome" where
  "take_read s =
     (case readChunk s of
        None \<Rightarrow> Go s
      | Some rc \<Rightarrow>
          let status = fst (statusBlock s) in
          if NT_SUCCESS status \<or> status = STATUS_END_OF_FILE
          then
            let bytesRead = (ucast (snd (statusBlock s)) :: ULONG);
                s1 = s\<lparr>chunks := (chunks s)(rc := (chunks s rc)\<lparr>BytesInBuffer := bytesRead\<rparr>),
                       remainingBytes := remainingBytes s - ucast bytesRead,
                       totalBytesRead := totalBytesRead s + ucast bytesRead,
                       sourceFileOffset := sourceFileOffset s + ucast bytesRead\<rparr>
            in
            if status = STATUS_END_OF_FILE \<or> bytesRead < BufferSize (chunks s rc)
            then Go (s1\<lparr>eof := True, fetchStatus := STATUS_SUCCESS, remainingBytes := 0\<rparr>)
            else Go (s1\<lparr>fetchStatus := status\<rparr>)
          else Leave status (s\<lparr>fetchStatus := status\<rparr>))"

definition issue_read :: "io_env \<Rightarrow> fetch_state \<Rightarrow> fetch_state outcome" where
  "issue_read env s =
     (let s1 = (if sint (remainingBytes s) \<le> 0 then s\<lparr>remainingBytes := ucast ChunkSize\<rparr>
                else s)
      in
      case LcGetNextAvailableChunk_read env s1 of
        Fault \<Rightarrow> Fault
      | Leave status s' \<Rightarrow> Leave status s'
      | Go (chunk, s2) \<Rightarrow>
          let s3 = s2\<lparr>readChunk := Some chunk\<rparr>;
              (status, iosb) = io_ZwReadFile env (sourceFileOffset s3)
                                 (BufferSize (chunks s3 chunk))
          in
          if status = STATUS_PENDING \<or> status = STATUS_SUCCESS
          then Go (s3\<lparr>fetchStatus := status, sourceSignaled := False,
                      readsInFlight := readsInFlight s3 @ [iosb]\<rparr>)
          else Leave status (s3\<lparr>fetchStatus := status\<rparr>))"

definition read_side :: "io_env \<Rightarrow> bool \<Rightarrow> fetch_state \<Rightarrow> fetch_state outcome" where
  "read_side env readComplete s =
     (if \<not> eof s \<and> readComplete
      then (case take_read s of
              Fault \<Rightarrow> Fault
            | Leave status s' \<Rightarrow> Leave status s'
            | Go s1 \<Rightarrow> if \<not> eof s1 then issue_read env s1 else Go s1)
      else Go s)"

text \<open>
  The write side, entered when \<open>writeComplete\<close> holds.  \<open>take_write\<close> accounts for
  the completed write of the current chunk and moves the cursor; \<open>write_side\<close> then
  ends the loop (\<open>Break\<close>), waits for a read, or issues the next write.
\<close>

definition take_write :: "fetch_state \<Rightarrow> fetch_state outcome" where
  "take_write s =
     (case (case writeChunk s of
              None \<Rightarrow> Go s
            | Some wc \<Rightarrow>
                let (Status, BytesWritten) = writeCallbackContext s in
                if \<not> NT_SUCCESS Status then Leave Status (s\<lparr>fetchStatus := Status\<rparr>)
                else Go (s\<lparr>fetchStatus := Status,
                           chunks := (chunks s)(wc := (chunks s wc)\<lparr>BytesInBuffer := 0\<rparr>),
                           totalBytesWritten := totalBytesWritten s + ucast BytesWritten,
                           destinationFileOffset := destinationFileOffset s + ucast BytesWritten,
                           writesCounted := writesCounted s @ [BytesWritten]\<rparr>)) of
        Fault \<Rightarrow> Fault
      | Leave status s' \<Rightarrow> Leave status s'
      | Go s1 \<Rightarrow>
          (case LcGetNextAvailableChunk_write s1 of
             Fault \<Rightarrow> Fault
           | Leave status s' \<Rightarrow> Leave status s'
           | Go (chunk, s2) \<Rightarrow> Go (s2\<lparr>writeChunk := Some chunk, fetchStatus := STATUS_SUCCESS\<rparr>)))"

datatype step = Continue fetch_state | Break fetch_state | Left NTSTATUS fetch_state | Faulted

definition write_side :: "io_env \<Rightarrow> fetch_state \<Rightarrow> step" where
  "write_side env s =
     (case (if \<not> waitingForRead s then take_write s else Go s) of
        Fault \<Rightarrow> Faulted
      | Leave status s' \<Rightarrow> Left status s'
      | Go s1 \<Rightarrow>
          let s2 = s1\<lparr>waitingForRead := False\<rparr> in
          (case writeChunk s2 of
             None \<Rightarrow> Faulted
           | Some wc \<Rightarrow>
               if BytesInBuffer (chunks s2 wc) = 0
               then (if eof s2 then Break s2 else Continue (s2\<lparr>waitingForRead := True\<rparr>))
               else
                 let s3 = s2\<lparr>writeEvent := False\<rparr>;
                     (status, iosb) = io_FltWriteFile env (destinationFileOffset s3)
                                        (BytesInBuffer (chunks s3 wc))
                 in
                 if \<not> NT_SUCCESS status then Left status (s3\<lparr>fetchStatus := status\<rparr>)
                 else Continue (s3\<lparr>fetchStatus := status, writeInFlight := Some iosb,
                                   writesIssued := writesIssued s3 @
                                     [(destinationFileOffset s3, BytesInBuffer (chunks s3 wc), iosb)]\<rparr>)))"

text \<open>
  One iteration of the \<open>for (;;)\<close> loop.  A wait on the source handle that is not
  satisfied within the timeout returns \<open>STATUS_TIMEOUT\<close>.
\<close>

definition wait_for_source :: "fetch_state \<Rightarrow> NTSTATUS" where
  "wait_for_source s = (if sourceSignaled s then STATUS_SUCCESS else STATUS_TIMEOUT)"

definition fetch_iteration :: "io_env \<Rightarrow> fetch_state \<Rightarrow> step" where
  "fetch_iteration env s =
     (let s1 = (if io_read_done env then complete_read s else s);
          waited = wait_for_source s1
      in
      if waitingForRead s1 \<and> \<not> NT_SUCCESS waited then Left waited (s1\<lparr>fetchStatus := waited\<rparr>)
      else
        let readComplete = (if waitingForRead s1 then True else waited = STATUS_SUCCESS);
            s2 = (if waitingForRead s1 then s1\<lparr>fetchStatus := waited\<rparr> else s1);
            s3 = (if io_write_done env then LcWriteCallback s2 else s2);
            writeComplete = writeEvent s3
        in
        case read_side env readComplete s3 of
          Fault \<Rightarrow> Faulted
        | Leave status s' \<Rightarrow> Left status s'
        | Go s4 \<Rightarrow> if writeComplete then write_side env s4 else Continue s4)"

text \<open>
  The state the loop starts in once the list of chunks is initialised.  Whether the
  source handle is signaled before the first read is up to the I/O done on it earlier.
\<close>

definition initial_fetch_state :: "bool \<Rightarrow> LONGLONG \<Rightarrow> fetch_state" where
  "initial_fetch_state signaled SourceFileSize =
     \<lparr>chunks = (\<lambda>a. \<lparr>BufferSize = 0, BytesInBuffer = 0\<rparr>), ring = [], chunkListLength = 0,
      readChunk = None, writeChunk = None, eof = False, waitingForRead = False,
      writeEvent = True, statusBlock = (0, 0), writeCallbackContext = (0, 0),
      remainingBytes = SourceFileSize, totalBytesRead = 0, totalBytesWritten = 0,
      sourceFileOffset = 0, destinationFileOffset = 0, fetchStatus = STATUS_SUCCESS,
      sourceSignaled = signaled, readsInFlight = [], writeInFlight = None,
      writesIssued = [], writesCounted = []\<rparr>"




text \<open>
  The states a run of the function passes through: the state after the initialisation
  of the list, and the state after each iteration of the loop.
\<close>

fun state_of :: "step \<Rightarrow> fetch_state option" where
  "state_of (Continue s) = Some s"
| "state_of (Break s) = Some s"
| "state_of (Left status s) = Some s"
| "state_of Faulted = None"

inductive fetch_reaches :: "LONGLONG \<Rightarrow> fetch_state \<Rightarrow> bool" for SourceFileSize where
  start: "LcInitializeChunksList env0 SourceFileSize (initial_fetch_state signaled SourceFileSize)
            = (status, s) \<Longrightarrow> fetch_reaches SourceFileSize s"
| iterate: "fetch_reaches SourceFileSize s \<Longrightarrow> state_of (fetch_iteration env s) = Some s'
            \<Longrightarrow> fetch_reaches SourceFileSize s'"

text \<open>The bound on the list of chunks.\<close>

definition chunks_bounded :: "fetch_state \<Rightarrow> bool" where
  "chunks_bounded s \<longleftrightarrow>
     length (ring s) \<le> unat MaxChunks \<and> unat (chunkListLength s) = length (ring s) \<and>
     list_all (\<lambda>c. BufferSize (chunks s c) \<le> ChunkSize) (ring s)"


text \<open>
  The state after a number of iterations none of which ends the loop.
\<close>

fun fetch_run :: "io_env list \<Rightarrow> fetch_state \<Rightarrow> fetch_state option" where
  "fetch_run [] s = Some s"
| "fetch_run (env # envs) s =
     (case fetch_iteration env s of
        Continue s' \<Rightarrow> fetch_run envs s'
      | _ \<Rightarrow> None)"

text \<open>
  Two environments for running the model: in the first every allocation succeeds and
  every read and write completes before the loop looks again, on a source of
  \<open>actual\<close> bytes; in the second the writes never complete.
\<close>

definition prompt_io :: "LONGLONG \<Rightarrow> io_env" where
  "prompt_io actual =
     \<lparr>io_read_done = True, io_write_done = True, io_write_done_in_wait = True,
      io_alloc_chunk = STATUS_SUCCESS, io_alloc_buffer = STATUS_SUCCESS,
      io_ZwReadFile = source_file actual, io_FltWriteFile = target_file\<rparr>"

definition stalled_writes :: "LONGLONG \<Rightarrow> io_env" where
  "stalled_writes actual =
     \<lparr>io_read_done = True, io_write_done = False, io_write_done_in_wait = False,
      io_alloc_chunk = STATUS_SUCCESS, io_alloc_buffer = STATUS_SUCCESS,
      io_ZwReadFile = source_file actual, io_FltWriteFile = target_file\<rparr>"

text \<open>
  \<open>ZwReadFile\<close> returns \<open>STATUS_PENDING\<close>, \<open>STATUS_SUCCESS\<close> or an error.
\<close>

definition reads_pending_or_failed :: "io_env \<Rightarrow> bool" where
  "reads_pending_or_failed env \<longleftrightarrow>
     (\<forall>offset len. fst (io_ZwReadFile env offset len) = STATUS_PENDING \<or>
                   fst (io_ZwReadFile env offset len) = STATUS_SUCCESS \<or>
                   \<not> NT_SUCCESS (fst (io_ZwReadFile env offset len)))"

text \<open>
  The bookkeeping of the writes.  \<open>completion_bytes\<close> is the byte count that
  \<open>LcWriteCallback\<close> stores for a completion, \<open>write_bytes\<close> that of a write issued,
  and the writes issued are \<open>consecutive\<close> when each starts where the byte counts of
  the ones before it end.
\<close>

definition completion_bytes :: "NTSTATUS \<times> 64 word \<Rightarrow> ULONG" where
  "completion_bytes iosb = (if NT_SUCCESS (fst iosb) then ucast (snd iosb) else 0)"

definition write_bytes :: "LONGLONG \<times> ULONG \<times> (NTSTATUS \<times> 64 word) \<Rightarrow> ULONG" where
  "write_bytes w = completion_bytes (snd (snd w))"

definition write_succeeded :: "LONGLONG \<times> ULONG \<times> (NTSTATUS \<times> 64 word) \<Rightarrow> bool" where
  "write_succeeded w = NT_SUCCESS (fst (snd (snd w)))"

fun consecutive ::
  "LONGLONG \<Rightarrow> (LONGLONG \<times> ULONG \<times> (NTSTATUS \<times> 64 word)) list \<Rightarrow> bool" where
  "consecutive offset [] = True"
| "consecutive offset (w # ws) =
     (fst w = offset \<and> consecutive (offset + ucast (write_bytes w)) ws)"


text \<open>The fields the write bookkeeping reads.\<close>

definition wview ::
  "fetch_state \<Rightarrow>
     (LONGLONG \<times> LONGLONG \<times> ULONG list \<times> (LONGLONG \<times> ULONG \<times> (NTSTATUS \<times> 64 word)) list) \<times>
     (bool \<times> nat option) \<times> (bool \<times> (NTSTATUS \<times> 64 word) option \<times> (NTSTATUS \<times> ULONG))" where
  "wview s =
     ((totalBytesWritten s, destinationFileOffset s, writesCounted s, writesIssued s),
      (waitingForRead s, writeChunk s),
      (writeEvent s, writeInFlight s, writeCallbackContext s))"

text \<open>
  The state between two writes: every write issued has completed and has been added.
\<close>

definition writes_settled :: "fetch_state \<Rightarrow> bool" where
  "writes_settled s \<longleftrightarrow>
     totalBytesWritten s = sum_list (map ucast (writesCounted s)) \<and>
     destinationFileOffset s = totalBytesWritten s \<and>
     writesCounted s = map write_bytes (writesIssued s) \<and>
     list_all write_succeeded (writesIssued s) \<and>
     consecutive 0 (writesIssued s) \<and>
     writeInFlight s = None"

section \<open>Operations.c: concurrent accesses to stub files\<close>

text \<open>
  \<open>PreReadWriteOperationCallback\<close> runs on the thread of every read, write and
  section-acquire request; the requests in flight share \<open>FileLocksList\<close>, the reparse
  tags and the stream contexts.  Each access is followed through the callback as a
  position, with the event pointer it got from \<open>LcGetFileLock\<close>; the steps are the
  stretches of the function between two points where it synchronises with the others:
  \<open>LcGetFileLock\<close> and \<open>LcReleaseFileLock\<close> run under \<open>FileLocksResource\<close>, and a
  satisfied wait on a \<open>SynchronizationEvent\<close> resets it.
\<close>

datatype position =
    AtEntry
  | AtGetFileLock
  | AtTestEvent nat
  | Waiting nat
  | AtQueryTag nat
  | InFetch nat
  | AtRelease nat FLT_PREOP_CALLBACK_STATUS
  | Exited FLT_PREOP_CALLBACK_STATUS

text \<open>
  What the calls of one step return.  \<open>ae_tag_left\<close> says whether a failed
  \<open>LcUntagFile\<close> has left the tag on the file.
\<close>

record access_env =
  ae_trusted :: bool
  ae_LcGetFileNameInformation :: NTSTATUS
  ae_alloc :: "nat option"
  ae_copy :: NTSTATUS
  ae_FltQueryInformationFile :: NTSTATUS
  ae_LcFetchRemoteFile :: NTSTATUS
  ae_LcUntagFile :: NTSTATUS
  ae_tag_left :: bool
  ae_FltDeleteStreamContext :: NTSTATUS

text \<open>
  The shared state and the accesses.  Files are told apart as \<open>RtlCompareUnicodeString\<close>
  does with \<open>CaseInSensitive = TRUE\<close>, by their folded names.  \<open>fetch_calls\<close> counts the
  calls of \<open>LcFetchRemoteFile\<close> of each access; \<open>freed_live\<close> records that
  \<open>LcGetFileLock\<close> has freed an entry that is still in the list.
\<close>

record accesses =
  FileLocksList :: "FILE_LOCK_ENTRY list"
  tagged :: "WCHAR list \<Rightarrow> bool"
  stream_context :: "WCHAR list \<Rightarrow> bool"
  freed_live :: bool
  positions :: "position list"
  fetch_calls :: "nat list"

text \<open>The state of the event at an address, and a satisfied wait resetting it.\<close>

definition event_signaled :: "nat \<Rightarrow> FILE_LOCK_ENTRY list \<Rightarrow> bool" where
  "event_signaled a L = (case find (\<lambda>e. Address e = a) L of None \<Rightarrow> False | Some e \<Rightarrow> Event e)"

definition reset_event :: "nat \<Rightarrow> FILE_LOCK_ENTRY list \<Rightarrow> FILE_LOCK_ENTRY list" where
  "reset_event a L = map (\<lambda>e. if Address e = a then e\<lparr>Event := False\<rparr> else e) L"

definition moved :: "nat \<Rightarrow> position \<Rightarrow> accesses \<Rightarrow> accesses" where
  "moved t p s = s\<lparr>positions := (positions s)[t := p]\<rparr>"

text \<open>
  The next step of access \<open>t\<close> to the file \<open>names ! t\<close>, in the order of the source:
  the check of the process, \<open>LcGetStreamContext\<close> and \<open>LcGetFileNameInformation\<close>;
  \<open>LcGetFileLock\<close>; the wait with a zero timeout; the wait without timeout, where the
  access stays until the event is signaled; the query of the reparse tag;
  \<open>LcFetchRemoteFile\<close>, \<open>LcUntagFile\<close> and \<open>FltDeleteStreamContext\<close>; and
  \<open>LcReleaseFileLock\<close> in the \<open>__finally\<close> block, which runs when \<open>fileLockEvent\<close> is
  set.  The status the callback returns is \<open>FLT_PREOP_COMPLETE\<close> when a step fails after
  \<open>cancelOnError\<close> is set, that is from \<open>LcFetchRemoteFile\<close> on.
\<close>

definition access_step ::
  "(WCHAR \<Rightarrow> WCHAR) \<Rightarrow> WCHAR list list \<Rightarrow> access_env \<Rightarrow> nat \<Rightarrow> accesses \<Rightarrow> accesses" where
  "access_step upcase names env t s =
     (let name = names ! t; file = map upcase name in
      case positions s ! t of
        AtEntry \<Rightarrow>
          if ae_trusted env then moved t (Exited FLT_PREOP_SUCCESS_NO_CALLBACK) s
          else if \<not> stream_context s file
          then moved t (Exited FLT_PREOP_SUCCESS_NO_CALLBACK) s
          else if \<not> NT_SUCCESS (ae_LcGetFileNameInformation env)
          then moved t (Exited FLT_PREOP_SUCCESS_NO_CALLBACK) s
          else moved t AtGetFileLock s
      | AtGetFileLock \<Rightarrow>
          let r = LcGetFileLock upcase (ae_alloc env) (ae_copy env) name (FileLocksList s) in
          (case (if NT_SUCCESS (gl_status r) then gl_Event r else None) of
             None \<Rightarrow>
               moved t (Exited FLT_PREOP_SUCCESS_NO_CALLBACK)
                 (s\<lparr>freed_live := freed_live s \<or>
                      (case gl_freed r of
                         None \<Rightarrow> False
                       | Some a \<Rightarrow> a \<in> Address ` set (FileLocksList s))\<rparr>)
           | Some a \<Rightarrow> moved t (AtTestEvent a) (s\<lparr>FileLocksList := gl_list r\<rparr>))
      | AtTestEvent a \<Rightarrow>
          if event_signaled a (FileLocksList s)
          then moved t (AtQueryTag a) (s\<lparr>FileLocksList := reset_event a (FileLocksList s)\<rparr>)
          else moved t (Waiting a) s
      | Waiting a \<Rightarrow>
          if event_signaled a (FileLocksList s)
          then moved t (AtRelease a FLT_PREOP_SUCCESS_NO_CALLBACK)
                 (s\<lparr>FileLocksList := reset_event a (FileLocksList s)\<rparr>)
          else s
      | AtQueryTag a \<Rightarrow>
          if \<not> NT_SUCCESS (ae_FltQueryInformationFile env)
          then moved t (AtRelease a FLT_PREOP_SUCCESS_NO_CALLBACK) s
          else if \<not> tagged s file
          then moved t (AtRelease a FLT_PREOP_SUCCESS_NO_CALLBACK) s
          else moved t (InFetch a)
                 (s\<lparr>fetch_calls := (fetch_calls s)[t := Suc (fetch_calls s ! t)]\<rparr>)
      | InFetch a \<Rightarrow>
          if \<not> NT_SUCCESS (ae_LcFetchRemoteFile env)
          then moved t (AtRelease a FLT_PREOP_COMPLETE) s
          else if \<not> NT_SUCCESS (ae_LcUntagFile env)
          then moved t (AtRelease a FLT_PREOP_COMPLETE)
                 (s\<lparr>tagged := (tagged s)(file := tagged s file \<and> ae_tag_left env)\<rparr>)
          else if \<not> NT_SUCCESS (ae_FltDeleteStreamContext env)
          then moved t (AtRelease a FLT_PREOP_COMPLETE)
                 (s\<lparr>tagged := (tagged s)(file := False)\<rparr>)
          else moved t (AtRelease a FLT_PREOP_SUCCESS_NO_CALLBACK)
                 (s\<lparr>tagged := (tagged s)(file := False),
                    stream_context := (stream_context s)(file := False)\<rparr>)
      | AtRelease a callbackStatus \<Rightarrow>
          moved t (Exited callbackStatus)
            (s\<lparr>FileLocksList := fst (LcReleaseFileLock a (FileLocksList s))\<rparr>)
      | Exited callbackStatus \<Rightarrow> s)"

text \<open>
  The pool does not hand out the address of an entry that is allocated.
\<close>

definition fresh_alloc :: "access_env \<Rightarrow> accesses \<Rightarrow> bool" where
  "fresh_alloc env s =
     (case ae_alloc env of
        None \<Rightarrow> True
      | Some a \<Rightarrow> a \<notin> Address ` set (FileLocksList s))"

definition initial_accesses ::
  "WCHAR list list \<Rightarrow> (WCHAR list \<Rightarrow> bool) \<Rightarrow> (WCHAR list \<Rightarrow> bool) \<Rightarrow> accesses" where
  "initial_accesses names tags contexts =
     \<lparr>FileLocksList = [], tagged = tags, stream_context = contexts, freed_live = False,
      positions = replicate (length names) AtEntry,
      fetch_calls = replicate (length names) 0\<rparr>"

text \<open>
  The states the accesses to the files \<open>names\<close> reach from their entries, in any
  interleaving of their steps; and the state a given interleaving leads to.
\<close>

inductive accesses_reach ::
  "(WCHAR \<Rightarrow> WCHAR) \<Rightarrow> WCHAR list list \<Rightarrow> accesses \<Rightarrow> bool" for upcase names where
  entry: "accesses_reach upcase names (initial_accesses names tags contexts)"
| step: "accesses_reach upcase names s \<Longrightarrow> t < length names \<Longrightarrow> fresh_alloc env s
         \<Longrightarrow> accesses_reach upcase names (access_step upcase names env t s)"

fun run_accesses ::
  "(WCHAR \<Rightarrow> WCHAR) \<Rightarrow> WCHAR list list \<Rightarrow> (nat \<times> access_env) list \<Rightarrow> accesses \<Rightarrow> accesses option" where
  "run_accesses upcase names [] s = Some s"
| "run_accesses upcase names ((t, env) # sched) s =
     (if t < length names \<and> fresh_alloc env s
      then run_accesses upcase names sched (access_step upcase names env t s)
      else None)"

text \<open>
  An access holds the event at \<open>a\<close> from \<open>LcGetFileLock\<close> to \<open>LcReleaseFileLock\<close>, and
  owns it once a wait of its own on it has been satisfied.
\<close>

fun holds :: "nat \<Rightarrow> position \<Rightarrow> bool" where
  "holds a (AtTestEvent b) = (a = b)"
| "holds a (Waiting b) = (a = b)"
| "holds a (AtQueryTag b) = (a = b)"
| "holds a (InFetch b) = (a = b)"
| "holds a (AtRelease b c) = (a = b)"
| "holds a AtEntry = False"
| "holds a AtGetFileLock = False"
| "holds a (Exited c) = False"

fun owns :: "nat \<Rightarrow> position \<Rightarrow> bool" where
  "owns a (AtQueryTag b) = (a = b)"
| "owns a (InFetch b) = (a = b)"
| "owns a (AtRelease b c) = (a = b)"
| "owns a AtEntry = False"
| "owns a AtGetFileLock = False"
| "owns a (AtTestEvent b) = False"
| "owns a (Waiting b) = False"
| "owns a (Exited c) = False"

definition number :: "('a \<Rightarrow> bool) \<Rightarrow> 'a list \<Rightarrow> nat" where
  "number P xs = length (filter P xs)"

text \<open>
  The invariant of the list of locks: one entry for a file, counting the accesses that hold
  its event, and the event either signaled or owned by exactly one access.
\<close>

definition lock_list_consistent ::
  "(WCHAR \<Rightarrow> WCHAR) \<Rightarrow> WCHAR list list \<Rightarrow> FILE_LOCK_ENTRY list \<Rightarrow> position list \<Rightarrow> bool" where
  "lock_list_consistent upcase names L ps \<longleftrightarrow>
     length ps = length names \<and>
     distinct (map Address L) \<and>
     (\<forall>e1\<in>set L. \<forall>e2\<in>set L.
        map upcase (FileName e1) = map upcase (FileName e2) \<longrightarrow> Address e1 = Address e2) \<and>
     (\<forall>e\<in>set L.
        0 < number (holds (Address e)) ps \<and>
        RefCount e = of_nat (number (holds (Address e)) ps) \<and>
        number (owns (Address e)) ps + of_bool (Event e) = 1) \<and>
     (\<forall>t<length ps. \<forall>a. holds a (ps ! t) \<longrightarrow>
        (\<exists>e\<in>set L. Address e = a \<and> map upcase (FileName e) = map upcase (names ! t)))"

definition locks_consistent :: "(WCHAR \<Rightarrow> WCHAR) \<Rightarrow> WCHAR list list \<Rightarrow> accesses \<Rightarrow> bool" where
  "locks_consistent upcase names s \<longleftrightarrow>
     lock_list_consistent upcase names (FileLocksList s) (positions s)"

text \<open>The list operations by address.\<close>

definition at_address :: "nat \<Rightarrow> (FILE_LOCK_ENTRY \<Rightarrow> FILE_LOCK_ENTRY) \<Rightarrow> FILE_LOCK_ENTRY \<Rightarrow> FILE_LOCK_ENTRY" where
  "at_address a f e = (if Address e = a then f e else e)"


text \<open>
  An environment for running the model: the pool returns \<open>alloc\<close>, \<open>LcFetchRemoteFile\<close>
  returns \<open>fetch\<close>, and every other call succeeds.
\<close>

definition step_env :: "nat option \<Rightarrow> NTSTATUS \<Rightarrow> access_env" where
  "step_env alloc fetch =
     \<lparr>ae_trusted = False, ae_LcGetFileNameInformation = STATUS_SUCCESS, ae_alloc = alloc,
      ae_copy = STATUS_SUCCESS, ae_FltQueryInformationFile = STATUS_SUCCESS,
      ae_LcFetchRemoteFile = fetch, ae_LcUntagFile = STATUS_SUCCESS, ae_tag_left = False,
      ae_FltDeleteStreamContext = STATUS_SUCCESS\<rparr>"

section \<open>Verified properties\<close>

subsection \<open>Status codes\<close>

lemma NT_SUCCESS_STATUS_ACCESS_DENIED [simp]: "\<not> NT_SUCCESS STATUS_ACCESS_DENIED"
  by (simp add: NT_SUCCESS_def STATUS_ACCESS_DENIED_def)

lemma NT_SUCCESS_STATUS_SUCCESS [simp]: "NT_SUCCESS STATUS_SUCCESS"
  by (simp add: NT_SUCCESS_def STATUS_SUCCESS_def)

lemma or_status_finally [simp]: "or_status (LcOpenFile_finally s h d) = s"
  by (simp add: LcOpenFile_finally_def)

lemma or_delegated_finally [simp]: "or_delegated (LcOpenFile_finally s h d) = d"
  by (simp add: LcOpenFile_finally_def)

subsection \<open>The source opener\<close>

text \<open>
  Claim C7.  When the direct open fails with access-denied the opener asks the user-mode
  client; a disconnected or timeout status of that request gives back the original
  access-denied status, any other status of the request is returned as it is; every other
  status of the direct open is returned without asking the client.
\<close>

theorem LcOpenFile_error_behaviour:
  fixes zw um :: "'p \<Rightarrow> NTSTATUS \<times> HANDLE"
  shows
    "(fst (zw p) = STATUS_ACCESS_DENIED \<longrightarrow>
        or_delegated (LcOpenFile zw um p) \<and>
        (fst (um p) = STATUS_PORT_DISCONNECTED \<or> fst (um p) = STATUS_TIMEOUT \<longrightarrow>
           or_status (LcOpenFile zw um p) = STATUS_ACCESS_DENIED) \<and>
        (fst (um p) \<noteq> STATUS_PORT_DISCONNECTED \<and> fst (um p) \<noteq> STATUS_TIMEOUT \<longrightarrow>
           or_status (LcOpenFile zw um p) = fst (um p))) \<and>
     (fst (zw p) \<noteq> STATUS_ACCESS_DENIED \<longrightarrow>
        \<not> or_delegated (LcOpenFile zw um p) \<and>
        or_status (LcOpenFile zw um p) = fst (zw p))"
  by (cases "zw p"; cases "um p") (simp add: LcOpenFile_def)

theorem LcOpenFile_error_behaviour_witness:
  "or_status (LcOpenFile (\<lambda>p::nat. (STATUS_ACCESS_DENIED, 0))
                (\<lambda>p. (STATUS_PORT_DISCONNECTED, 0)) 7) = STATUS_ACCESS_DENIED \<and>
   or_status (LcOpenFile (\<lambda>p::nat. (STATUS_ACCESS_DENIED, 0))
                (\<lambda>p. (STATUS_TIMEOUT, 0)) 7) = STATUS_ACCESS_DENIED \<and>
   or_status (LcOpenFile (\<lambda>p::nat. (STATUS_ACCESS_DENIED, 0))
                (\<lambda>p. (STATUS_INSUFFICIENT_RESOURCES, 0)) 7) = STATUS_INSUFFICIENT_RESOURCES \<and>
   or_delegated (LcOpenFile (\<lambda>p::nat. (STATUS_ACCESS_DENIED, 0))
                (\<lambda>p. (STATUS_INSUFFICIENT_RESOURCES, 0)) 7) \<and>
   or_status (LcOpenFile (\<lambda>p::nat. (STATUS_NOT_FOUND, 0))
                (\<lambda>p. (STATUS_SUCCESS, 5)) 7) = STATUS_NOT_FOUND \<and>
   \<not> or_delegated (LcOpenFile (\<lambda>p::nat. (STATUS_NOT_FOUND, 0))
                (\<lambda>p. (STATUS_SUCCESS, 5)) 7)"
  using LcOpenFile_error_behaviour [of "\<lambda>p::nat. (STATUS_ACCESS_DENIED, 0)" 7
          "\<lambda>p. (STATUS_PORT_DISCONNECTED, 0)"]
        LcOpenFile_error_behaviour [of "\<lambda>p::nat. (STATUS_ACCESS_DENIED, 0)" 7
          "\<lambda>p. (STATUS_TIMEOUT, 0)"]
        LcOpenFile_error_behaviour [of "\<lambda>p::nat. (STATUS_ACCESS_DENIED, 0)" 7
          "\<lambda>p. (STATUS_INSUFFICIENT_RESOURCES, 0)"]
        LcOpenFile_error_behaviour [of "\<lambda>p::nat. (STATUS_NOT_FOUND, 0)" 7
          "\<lambda>p. (STATUS_SUCCESS, 5)"]
  by (simp add: STATUS_ACCESS_DENIED_def STATUS_PORT_DISCONNECTED_def STATUS_TIMEOUT_def
        STATUS_INSUFFICIENT_RESOURCES_def STATUS_NOT_FOUND_def STATUS_SUCCESS_def)

subsection \<open>The per-file lock list\<close>

lemma RtlCompareUnicodeString_zero_iff:
  "RtlCompareUnicodeString upcase s1 s2 = 0 \<longleftrightarrow> map upcase s1 = map upcase s2"
proof (induction upcase s1 s2 rule: RtlCompareUnicodeString.induct)
  case (3 upcase c1 s1 c2 s2)
  have "uint (upcase c1) - uint (upcase c2) = 0 \<longleftrightarrow> upcase c1 = upcase c2"
    by (simp add: word_uint_eq_iff)
  with 3 show ?case by simp
qed auto

lemma reference_entry_None:
  "(\<forall>e\<in>set L. RtlCompareUnicodeString upcase name (FileName e) \<noteq> 0)
     \<Longrightarrow> reference_entry upcase name L = None"
  by (induction L) auto

lemma reference_entry_first:
  "(\<forall>x\<in>set pre. RtlCompareUnicodeString upcase name (FileName x) \<noteq> 0)
     \<Longrightarrow> RtlCompareUnicodeString upcase name (FileName e) = 0
     \<Longrightarrow> reference_entry upcase name (pre @ e # post)
           = Some (Address e, pre @ e\<lparr>RefCount := RefCount e + 1\<rparr> # post)"
  by (induction pre) auto

lemma LcReleaseFileLock_first:
  "(\<forall>x\<in>set pre. Address x \<noteq> Address e)
     \<Longrightarrow> LcReleaseFileLock (Address e) (pre @ e # post)
           = (if sint (RefCount e - 1) \<le> 0 then (pre @ post, Some (Address e))
              else (pre @ e\<lparr>RefCount := RefCount e - 1, Event := True\<rparr> # post, None))"
  by (induction pre) (auto simp: Let_def)

lemma held_count_reaches_zero:
  fixes c :: "32 word"
  assumes "0 < sint c"
  shows "sint (c - 1) \<le> 0 \<longleftrightarrow> c - 1 = 0"
proof -
  have r: "sint c < 2 ^ 31" using sint_lt [of c] by simp
  have "sint (c - 1) = signed_take_bit 31 (sint c - 1)"
    by (simp add: sint_word_diff)
  also have "\<dots> = sint c - 1"
    using assms r by (simp add: signed_take_bit_int_eq_self)
  finally have "sint (c - 1) = sint c - 1" .
  moreover have "sint (c - 1) = 0 \<longleftrightarrow> c - 1 = 0"
    by (metis signed_eq_0_iff)
  ultimately show ?thesis using assms by auto
qed

text \<open>
  Claim C3.  When no entry of the list carries the name (compared case-insensitively) and
  the allocations succeed, \<open>LcGetFileLock\<close> links a new entry at the head, built with a
  signaled event and a count of 0, raises its count to 1 and returns its event; when an
  entry carries the name, the first such entry gains a reference and its event is
  returned.  \<open>LcReleaseFileLock\<close> takes a reference from the first entry with the given
  event; for an entry that is held (a positive count) the entry is unlinked and freed
  exactly when the count reaches zero, and otherwise its event is set.
\<close>

theorem file_lock_contract:
  "((\<forall>x\<in>set L. RtlCompareUnicodeString upcase name (FileName x) \<noteq> 0) \<and> NT_SUCCESS copy \<longrightarrow>
      Event (new_lock_entry name a) \<and> RefCount (new_lock_entry name a) = 0 \<and>
      LcGetFileLock upcase (Some a) copy name L =
        \<lparr>gl_status = STATUS_SUCCESS, gl_Event = Some a,
         gl_list = (new_lock_entry name a)\<lparr>RefCount := 1\<rparr> # L, gl_freed = None\<rparr>) \<and>
   ((\<forall>x\<in>set pre. RtlCompareUnicodeString upcase name (FileName x) \<noteq> 0) \<and>
      RtlCompareUnicodeString upcase name (FileName e) = 0 \<longrightarrow>
      LcGetFileLock upcase alloc copy name (pre @ e # post) =
        \<lparr>gl_status = STATUS_SUCCESS, gl_Event = Some (Address e),
         gl_list = pre @ e\<lparr>RefCount := RefCount e + 1\<rparr> # post, gl_freed = None\<rparr>) \<and>
   ((\<forall>x\<in>set pre. Address x \<noteq> Address e) \<and> 0 < sint (RefCount e) \<longrightarrow>
      LcReleaseFileLock (Address e) (pre @ e # post) =
        (if RefCount e - 1 = 0 then (pre @ post, Some (Address e))
         else (pre @ e\<lparr>RefCount := RefCount e - 1, Event := True\<rparr> # post, None)))"
proof (intro conjI impI)
  assume "(\<forall>x\<in>set L. RtlCompareUnicodeString upcase name (FileName x) \<noteq> 0) \<and> NT_SUCCESS copy"
  then show "LcGetFileLock upcase (Some a) copy name L =
        \<lparr>gl_status = STATUS_SUCCESS, gl_Event = Some a,
         gl_list = (new_lock_entry name a)\<lparr>RefCount := 1\<rparr> # L, gl_freed = None\<rparr>"
    by (simp add: LcGetFileLock_def reference_entry_None new_lock_entry_def)
next
  assume "(\<forall>x\<in>set pre. RtlCompareUnicodeString upcase name (FileName x) \<noteq> 0) \<and>
      RtlCompareUnicodeString upcase name (FileName e) = 0"
  then show "LcGetFileLock upcase alloc copy name (pre @ e # post) =
        \<lparr>gl_status = STATUS_SUCCESS, gl_Event = Some (Address e),
         gl_list = pre @ e\<lparr>RefCount := RefCount e + 1\<rparr> # post, gl_freed = None\<rparr>"
    by (simp add: LcGetFileLock_def reference_entry_first)
next
  assume "(\<forall>x\<in>set pre. Address x \<noteq> Address e) \<and> 0 < sint (RefCount e)"
  then show "LcReleaseFileLock (Address e) (pre @ e # post) =
        (if RefCount e - 1 = 0 then (pre @ post, Some (Address e))
         else (pre @ e\<lparr>RefCount := RefCount e - 1, Event := True\<rparr> # post, None))"
    using held_count_reaches_zero [of "RefCount e"]
    by (simp add: LcReleaseFileLock_first)
qed (simp_all add: new_lock_entry_def)

theorem file_lock_contract_witness:
  "LcGetFileLock upcase_ascii (Some 100) STATUS_SUCCESS [0x61] [] =
     \<lparr>gl_status = STATUS_SUCCESS, gl_Event = Some 100,
      gl_list = [\<lparr>FileName = [0x61], Event = True, RefCount = 1, Address = 100\<rparr>],
      gl_freed = None\<rparr> \<and>
   LcGetFileLock upcase_ascii None STATUS_SUCCESS [0x41]
       [\<lparr>FileName = [0x61], Event = False, RefCount = 1, Address = 100\<rparr>] =
     \<lparr>gl_status = STATUS_SUCCESS, gl_Event = Some 100,
      gl_list = [\<lparr>FileName = [0x61], Event = False, RefCount = 2, Address = 100\<rparr>],
      gl_freed = None\<rparr> \<and>
   LcReleaseFileLock 100 [\<lparr>FileName = [0x61], Event = False, RefCount = 2, Address = 100\<rparr>] =
     ([\<lparr>FileName = [0x61], Event = True, RefCount = 1, Address = 100\<rparr>], None) \<and>
   LcReleaseFileLock 100 [\<lparr>FileName = [0x61], Event = True, RefCount = 1, Address = 100\<rparr>] =
     ([], Some 100)"
  using file_lock_contract [where upcase = upcase_ascii and L = "[]" and name = "[0x61]"
          and a = 100 and copy = STATUS_SUCCESS and pre = "[]" and post = "[]"
          and e = "\<lparr>FileName = [0x61], Event = False, RefCount = 2, Address = 100\<rparr>"]
        file_lock_contract [where upcase = upcase_ascii and L = "[]" and name = "[0x41]"
          and a = 100 and copy = STATUS_SUCCESS and pre = "[]" and post = "[]"
          and alloc = None
          and e = "\<lparr>FileName = [0x61], Event = False, RefCount = 1, Address = 100\<rparr>"]
        file_lock_contract [where upcase = upcase_ascii and L = "[]" and name = "[0x61]"
          and a = 100 and copy = STATUS_SUCCESS and pre = "[]" and post = "[]"
          and e = "\<lparr>FileName = [0x61], Event = True, RefCount = 1, Address = 100\<rparr>"]
  by (simp add: new_lock_entry_def upcase_ascii_def)

subsection \<open>Flags\<close>

lemma flag_one:
  fixes a :: "32 word"
  assumes "a AND 1 \<noteq> 0"
  shows "a AND 1 = 1"
proof -
  have "a AND 1 = of_bool (odd a)" by (simp add: and_one_eq mod2_eq_if)
  with assms show ?thesis by (cases "odd a") auto
qed

lemma restore_flag:
  fixes x r m :: "'a::len word"
  assumes "x AND r = r" and "r AND m = 0"
  shows "((x AND NOT r) AND NOT m) OR r = x AND NOT m"
proof (rule bit_eqI)
  fix n
  have "bit (x AND r) n = bit r n" by (simp only: assms)
  then have 1: "bit r n \<Longrightarrow> bit x n" by (simp add: bit_and_iff)
  have "bit (r AND m) n = bit (0::'a word) n" by (simp only: assms)
  then have 2: "bit r n \<Longrightarrow> \<not> bit m n" by (simp add: bit_and_iff)
  show "bit (((x AND NOT r) AND NOT m) OR r) n = bit (x AND NOT m) n"
    using 1 2 by (auto simp: bit_and_iff bit_or_iff bit_not_iff dest: bit_imp_le_length)
qed

lemma ClearFlag_three:
  "ClearFlag (ClearFlag (ClearFlag a FILE_ATTRIBUTE_REPARSE_POINT) FILE_ATTRIBUTE_OFFLINE)
     FILE_ATTRIBUTE_NOT_CONTENT_INDEXED = ClearFlag a LC_UNTAG_ATTRIBUTES"
  unfolding ClearFlag_def LC_UNTAG_ATTRIBUTES_def
  by (rule bit_eqI) (auto simp: bit_and_iff bit_or_iff bit_not_iff)

lemma ClearFlag_restore_readonly:
  assumes "FlagOn a FILE_ATTRIBUTE_READONLY"
  shows "SetFlag (ClearFlag (ClearFlag a FILE_ATTRIBUTE_READONLY) LC_UNTAG_ATTRIBUTES)
           FILE_ATTRIBUTE_READONLY = ClearFlag a LC_UNTAG_ATTRIBUTES"
proof -
  have "a AND FILE_ATTRIBUTE_READONLY = FILE_ATTRIBUTE_READONLY"
    using assms flag_one [of a] by (simp add: FlagOn_def FILE_ATTRIBUTE_READONLY_def)
  moreover have "FILE_ATTRIBUTE_READONLY AND LC_UNTAG_ATTRIBUTES = 0"
    by (simp add: FILE_ATTRIBUTE_READONLY_def LC_UNTAG_ATTRIBUTES_def
          FILE_ATTRIBUTE_REPARSE_POINT_def FILE_ATTRIBUTE_OFFLINE_def
          FILE_ATTRIBUTE_NOT_CONTENT_INDEXED_def)
  ultimately show ?thesis
    unfolding SetFlag_def ClearFlag_def by (rule restore_flag)
qed

lemma ClearFlag_idem: "ClearFlag (ClearFlag a m) m = ClearFlag a m"
  unfolding ClearFlag_def by (rule bit_eqI) (auto simp: bit_and_iff bit_not_iff)

lemma ClearFlag_not_on:
  assumes "\<not> FlagOn a m"
  shows "ClearFlag a m = a"
  unfolding ClearFlag_def
proof (rule bit_eqI)
  fix n
  have "bit (a AND m) n = bit (0::32 word) n" using assms by (simp add: FlagOn_def)
  then show "bit (a AND NOT m) n = bit a n"
    by (auto simp: bit_and_iff bit_not_iff dest: bit_imp_le_length)
qed

lemma FlagOn_ClearFlag_readonly:
  "FlagOn (ClearFlag a LC_UNTAG_ATTRIBUTES) FILE_ATTRIBUTE_READONLY
     = FlagOn a FILE_ATTRIBUTE_READONLY"
proof -
  have "(a AND NOT LC_UNTAG_ATTRIBUTES) AND FILE_ATTRIBUTE_READONLY
          = a AND FILE_ATTRIBUTE_READONLY"
    by (rule bit_eqI)
       (auto simp: bit_and_iff bit_or_iff bit_not_iff FILE_ATTRIBUTE_READONLY_def
          LC_UNTAG_ATTRIBUTES_def FILE_ATTRIBUTE_REPARSE_POINT_def
          FILE_ATTRIBUTE_OFFLINE_def bit_1_iff FILE_ATTRIBUTE_NOT_CONTENT_INDEXED_def
          dest: bit_imp_le_length)
  then show ?thesis by (simp add: FlagOn_def ClearFlag_def)
qed

subsection \<open>The stub-mark reader\<close>

lemma LcGetReparsePointData_rejects_iff:
  assumes "re_fsctl_size env = STATUS_BUFFER_OVERFLOW"
    and "NT_SUCCESS (re_alloc env)" and "NT_SUCCESS (re_fsctl_data env)"
    and "NT_SUCCESS (re_string_alloc env)"
    and "wcslen (rd_RemoteFilePath (re_reparseData env) @ re_memory_after env) = Some n"
  shows "LcGetReparsePointData env = Returned STATUS_IO_REPARSE_DATA_INVALID None
           \<longleftrightarrow> sizeof_ReparseBuffer + (n + 1) * 2
                 \<le> unat (rd_ReparseDataLength (re_reparseData env))"
  using assms
  by (auto simp: LcGetReparsePointData_def Let_def LcAllocateUnicodeString_def
        STATUS_IO_REPARSE_DATA_INVALID_def STATUS_INVALID_PARAMETER_2_def NT_SUCCESS_def)

text \<open>
  Claim C6.  The claim has the reader fail with \<open>STATUS_IO_REPARSE_DATA_INVALID\<close>
  exactly when the declared length does not cover the size field and the terminated
  path.  The check of the source runs the other way.  A payload of 20 declared bytes
  that holds the size, the path \<open>a\<close> with its terminator and eight spare bytes covers
  both fields and is rejected; a payload of 10 declared bytes that holds the size and one
  character without a terminator does not cover them and is accepted, the path being
  completed from the memory behind the allocation.
\<close>

theorem LcGetReparsePointData_length_check:
  "LcGetReparsePointData
     \<lparr>re_fsctl_size = STATUS_BUFFER_OVERFLOW, re_alloc = STATUS_SUCCESS,
      re_fsctl_data = STATUS_SUCCESS,
      re_reparseData = \<lparr>rd_ReparseTag = LC_REPARSE_TAG, rd_ReparseDataLength = 20,
                        rd_RemoteFileSize = 1500,
                        rd_RemoteFilePath = [0x61, 0, 0, 0, 0, 0]\<rparr>,
      re_memory_after = [], re_string_alloc = STATUS_SUCCESS\<rparr>
     = Returned STATUS_IO_REPARSE_DATA_INVALID None \<and>
   LcGetReparsePointData
     \<lparr>re_fsctl_size = STATUS_BUFFER_OVERFLOW, re_alloc = STATUS_SUCCESS,
      re_fsctl_data = STATUS_SUCCESS,
      re_reparseData = \<lparr>rd_ReparseTag = LC_REPARSE_TAG, rd_ReparseDataLength = 10,
                        rd_RemoteFileSize = 1500, rd_RemoteFilePath = [0x61]\<rparr>,
      re_memory_after = [0x62, 0], re_string_alloc = STATUS_SUCCESS\<rparr>
     = Returned STATUS_SUCCESS (Some (1500, [0x61, 0x62]))"
  by (simp add: LcGetReparsePointData_def STATUS_BUFFER_OVERFLOW_def NT_SUCCESS_def
        STATUS_SUCCESS_def sizeof_ReparseBuffer_def LcAllocateUnicodeString_def)

subsection \<open>The mark clearer\<close>

lemma LcUntagFile_absent:
  assumes "fs_ReparseTag f = None" and "NT_SUCCESS (ue_query env)"
    and "FlagOn (fs_FileAttributes f) FILE_ATTRIBUTE_READONLY
           \<longrightarrow> NT_SUCCESS (ue_set_readonly env)"
    and "NT_SUCCESS (ue_create env)" and "NT_SUCCESS (ue_set env)"
  shows "LcUntagFile env f =
     (ue_set env, f\<lparr>fs_FileAttributes := ClearFlag (fs_FileAttributes f) LC_UNTAG_ATTRIBUTES\<rparr>)"
  using assms
  by (auto simp: LcUntagFile_def Let_def FltUntagFile_def FltSetInformationFile_def
        ClearFlag_three ClearFlag_restore_readonly)

text \<open>
  Claim C8, as the source has it.  On a file without the mark, and with every call to
  the file system succeeding, \<open>LcUntagFile\<close> returns success and leaves the mark
  absent; the attribute word loses the bits \<open>REPARSE_POINT\<close>, \<open>OFFLINE\<close> and
  \<open>NOT_CONTENT_INDEXED\<close> and keeps every other bit, so a file that carries none of
  the three is unchanged and a second call changes nothing after the first.
\<close>

theorem LcUntagFile_mark_absent:
  assumes "fs_ReparseTag f = None" and "NT_SUCCESS (ue_query env)"
    and "NT_SUCCESS (ue_set_readonly env)"
    and "NT_SUCCESS (ue_create env)" and "NT_SUCCESS (ue_set env)"
  shows "NT_SUCCESS (fst (LcUntagFile env f)) \<and>
         snd (LcUntagFile env f) =
           f\<lparr>fs_FileAttributes := ClearFlag (fs_FileAttributes f) LC_UNTAG_ATTRIBUTES\<rparr> \<and>
         (\<not> FlagOn (fs_FileAttributes f) LC_UNTAG_ATTRIBUTES \<longrightarrow> snd (LcUntagFile env f) = f) \<and>
         snd (LcUntagFile env (snd (LcUntagFile env f))) = snd (LcUntagFile env f)"
proof -
  let ?g = "f\<lparr>fs_FileAttributes := ClearFlag (fs_FileAttributes f) LC_UNTAG_ATTRIBUTES\<rparr>"
  have first: "LcUntagFile env f = (ue_set env, ?g)"
    using assms by (intro LcUntagFile_absent) simp_all
  have "fs_ReparseTag ?g = None" using assms(1) by simp
  then have "LcUntagFile env ?g =
      (ue_set env, ?g\<lparr>fs_FileAttributes := ClearFlag (fs_FileAttributes ?g) LC_UNTAG_ATTRIBUTES\<rparr>)"
    using assms by (intro LcUntagFile_absent) simp_all
  then have second: "snd (LcUntagFile env ?g) = ?g"
    by (simp add: ClearFlag_idem)
  show ?thesis
    using first second assms(5) by (simp add: ClearFlag_not_on)
qed

theorem LcUntagFile_mark_absent_witness:
  "NT_SUCCESS (fst (LcUntagFile
      \<lparr>ue_query = STATUS_SUCCESS, ue_set_readonly = STATUS_SUCCESS,
       ue_create = STATUS_SUCCESS, ue_untag = STATUS_SUCCESS, ue_set = STATUS_SUCCESS\<rparr>
      \<lparr>fs_FileAttributes = 0x21, fs_ReparseTag = None\<rparr>)) \<and>
   snd (LcUntagFile
      \<lparr>ue_query = STATUS_SUCCESS, ue_set_readonly = STATUS_SUCCESS,
       ue_create = STATUS_SUCCESS, ue_untag = STATUS_SUCCESS, ue_set = STATUS_SUCCESS\<rparr>
      \<lparr>fs_FileAttributes = 0x21, fs_ReparseTag = None\<rparr>)
     = \<lparr>fs_FileAttributes = 0x21, fs_ReparseTag = None\<rparr>"
proof -
  let ?env = "\<lparr>ue_query = STATUS_SUCCESS, ue_set_readonly = STATUS_SUCCESS,
       ue_create = STATUS_SUCCESS, ue_untag = STATUS_SUCCESS, ue_set = STATUS_SUCCESS\<rparr>"
  let ?f = "\<lparr>fs_FileAttributes = 0x21, fs_ReparseTag = None\<rparr>"
  have "\<not> FlagOn (fs_FileAttributes ?f) LC_UNTAG_ATTRIBUTES"
    by (simp add: FlagOn_def LC_UNTAG_ATTRIBUTES_def FILE_ATTRIBUTE_REPARSE_POINT_def
          FILE_ATTRIBUTE_OFFLINE_def FILE_ATTRIBUTE_NOT_CONTENT_INDEXED_def)
  then show ?thesis
    using LcUntagFile_mark_absent [of ?f ?env]
    by (simp add: ClearFlag_def LC_UNTAG_ATTRIBUTES_def FILE_ATTRIBUTE_REPARSE_POINT_def
          FILE_ATTRIBUTE_OFFLINE_def FILE_ATTRIBUTE_NOT_CONTENT_INDEXED_def)
qed

text \<open>
  The claim as stated fails: a file without the mark whose attributes are \<open>ARCHIVE\<close>
  and \<open>NOT_CONTENT_INDEXED\<close> comes back without \<open>NOT_CONTENT_INDEXED\<close>.
\<close>

theorem LcUntagFile_changes_attributes:
  "LcUntagFile
      \<lparr>ue_query = STATUS_SUCCESS, ue_set_readonly = STATUS_SUCCESS,
       ue_create = STATUS_SUCCESS, ue_untag = STATUS_SUCCESS, ue_set = STATUS_SUCCESS\<rparr>
      \<lparr>fs_FileAttributes = 0x2020, fs_ReparseTag = None\<rparr>
     = (STATUS_SUCCESS, \<lparr>fs_FileAttributes = 0x20, fs_ReparseTag = None\<rparr>) \<and>
   \<lparr>fs_FileAttributes = 0x20, fs_ReparseTag = None\<rparr>
     \<noteq> \<lparr>fs_FileAttributes = 0x2020 :: ULONG, fs_ReparseTag = None :: ULONG option\<rparr>"
  by (simp add: LcUntagFile_def FlagOn_def ClearFlag_def SetFlag_def FltUntagFile_def
        FltSetInformationFile_def NT_SUCCESS_def STATUS_SUCCESS_def
        FILE_ATTRIBUTE_READONLY_def FILE_ATTRIBUTE_REPARSE_POINT_def
        FILE_ATTRIBUTE_OFFLINE_def FILE_ATTRIBUTE_NOT_CONTENT_INDEXED_def
        STATUS_NOT_A_REPARSE_POINT_def)

subsection \<open>Query information\<close>

lemma NT_SUCCESS_STATUS_REPARSE [simp]: "NT_SUCCESS STATUS_REPARSE"
  by (simp add: NT_SUCCESS_def STATUS_REPARSE_def)

lemma strip_attributes_off:
  "\<not> FlagOn (a AND NOT LC_FILE_ATTRIBUTES) FILE_ATTRIBUTE_OFFLINE \<and>
   \<not> FlagOn (a AND NOT LC_FILE_ATTRIBUTES) FILE_ATTRIBUTE_REPARSE_POINT"
proof -
  have "(a AND NOT LC_FILE_ATTRIBUTES) AND FILE_ATTRIBUTE_OFFLINE = 0"
    by (rule bit_eqI)
       (auto simp: bit_and_iff bit_or_iff bit_not_iff LC_FILE_ATTRIBUTES_def)
  moreover have "(a AND NOT LC_FILE_ATTRIBUTES) AND FILE_ATTRIBUTE_REPARSE_POINT = 0"
    by (rule bit_eqI)
       (auto simp: bit_and_iff bit_or_iff bit_not_iff LC_FILE_ATTRIBUTES_def)
  ultimately show ?thesis by (simp add: FlagOn_def)
qed

text \<open>
  Claim C5, as the source has it.  For a query of a size-bearing class that is not
  generated, reissued or file-system-filter I/O, is not being drained and completed with
  success or \<open>STATUS_BUFFER_OVERFLOW\<close>: when the file has a stream context, a zero
  end-of-file is replaced by the remote size of the context (another value is kept),
  and the attribute member of \<open>FileAllInformation\<close> and \<open>FileNetworkOpenInformation\<close>
  loses \<open>OFFLINE\<close> and \<open>REPARSE_POINT\<close> whatever the end-of-file is; when the file
  has no stream context the buffer comes back as the lower drivers filled it.
\<close>

theorem query_information_size_and_attributes:
  assumes "size_bearing (qd_FileInformationClass Data)"
    and "\<not> qd_generated_io Data" and "\<not> qd_fs_filter_operation Data"
    and "\<not> qd_reissued_io Data"
    and "NT_SUCCESS (qd_Status Data) \<or> qd_Status Data = STATUS_BUFFER_OVERFLOW"
  shows
    "qd_EndOfFile (query_information False (Some context) Data) =
       (if qd_EndOfFile Data = 0 then RemoteFileSize context else qd_EndOfFile Data) \<and>
     (qd_FileInformationClass Data = FileAllInformation
        \<or> qd_FileInformationClass Data = FileNetworkOpenInformation \<longrightarrow>
        qd_FileAttributes (query_information False (Some context) Data) =
          qd_FileAttributes Data AND NOT LC_FILE_ATTRIBUTES \<and>
        \<not> FlagOn (qd_FileAttributes (query_information False (Some context) Data))
             FILE_ATTRIBUTE_OFFLINE \<and>
        \<not> FlagOn (qd_FileAttributes (query_information False (Some context) Data))
             FILE_ATTRIBUTE_REPARSE_POINT) \<and>
     query_information False None Data = Data"
proof -
  have pre: "PreQueryInformationOperationCallback Data = FLT_PREOP_SYNCHRONIZE"
    using assms(1-4)
    by (auto simp: PreQueryInformationOperationCallback_def size_bearing_def)
  have ok: "\<not> (\<not> NT_SUCCESS (qd_Status Data) \<and> qd_Status Data \<noteq> STATUS_BUFFER_OVERFLOW)"
    using assms(5) by auto
  have eof: "qd_EndOfFile (query_information False (Some context) Data) =
       (if qd_EndOfFile Data = 0 then RemoteFileSize context else qd_EndOfFile Data)"
    using assms(1) ok
    by (auto simp: query_information_def pre PostQueryInformationOperationCallback_def
          size_bearing_def fix_EndOfFile_def strip_attributes_def)
  have attrs: "qd_FileAttributes (query_information False (Some context) Data) =
          qd_FileAttributes Data AND NOT LC_FILE_ATTRIBUTES"
    if "qd_FileInformationClass Data = FileAllInformation
        \<or> qd_FileInformationClass Data = FileNetworkOpenInformation"
    using that ok
    by (auto simp: query_information_def pre PostQueryInformationOperationCallback_def
          fix_EndOfFile_def strip_attributes_def)
  have none: "query_information False None Data = Data"
    by (simp add: query_information_def PostQueryInformationOperationCallback_def)
  show ?thesis
    using eof attrs none strip_attributes_off [of "qd_FileAttributes Data"] by auto
qed

theorem query_information_size_and_attributes_witness:
  "qd_EndOfFile (query_information False
      (Some \<lparr>UseCustomHandler = False, RemoteFileSize = 4096, RemoteFilePath = [0x61]\<rparr>)
      \<lparr>qd_generated_io = False, qd_fs_filter_operation = False, qd_reissued_io = False,
       qd_FileInformationClass = FileAllInformation, qd_Status = STATUS_SUCCESS,
       qd_EndOfFile = 0, qd_FileAttributes = 0x1420\<rparr>) = 4096 \<and>
   qd_FileAttributes (query_information False
      (Some \<lparr>UseCustomHandler = False, RemoteFileSize = 4096, RemoteFilePath = [0x61]\<rparr>)
      \<lparr>qd_generated_io = False, qd_fs_filter_operation = False, qd_reissued_io = False,
       qd_FileInformationClass = FileAllInformation, qd_Status = STATUS_SUCCESS,
       qd_EndOfFile = 0, qd_FileAttributes = 0x1420\<rparr>) = 0x20"
  using query_information_size_and_attributes [of
      "\<lparr>qd_generated_io = False, qd_fs_filter_operation = False, qd_reissued_io = False,
        qd_FileInformationClass = FileAllInformation, qd_Status = STATUS_SUCCESS,
        qd_EndOfFile = 0, qd_FileAttributes = 0x1420\<rparr>"
      "\<lparr>UseCustomHandler = False, RemoteFileSize = 4096, RemoteFilePath = [0x61]\<rparr>"]
  by (simp add: size_bearing_def LC_FILE_ATTRIBUTES_def FILE_ATTRIBUTE_OFFLINE_def
        FILE_ATTRIBUTE_REPARSE_POINT_def)

text \<open>
  The claim as stated fails: the bits are not always stripped.  A query of
  \<open>FileAllInformation\<close> on a file without a stream context returns the attributes
  \<open>OFFLINE\<close> and \<open>REPARSE_POINT\<close> as the lower drivers reported them.
\<close>

theorem query_information_keeps_attributes:
  "qd_FileAttributes (query_information False None
      \<lparr>qd_generated_io = False, qd_fs_filter_operation = False, qd_reissued_io = False,
       qd_FileInformationClass = FileAllInformation, qd_Status = STATUS_SUCCESS,
       qd_EndOfFile = 0, qd_FileAttributes = 0x1400\<rparr>) = 0x1400 \<and>
   FlagOn 0x1400 FILE_ATTRIBUTE_OFFLINE \<and> FlagOn 0x1400 FILE_ATTRIBUTE_REPARSE_POINT"
  by (simp add: query_information_def PostQueryInformationOperationCallback_def
        PreQueryInformationOperationCallback_def FlagOn_def FILE_ATTRIBUTE_OFFLINE_def
        FILE_ATTRIBUTE_REPARSE_POINT_def)

subsection \<open>Post-create\<close>

lemma PostCreate_try_status:
  assumes "hit_reparse_tag upcase draining completionContext Data"
    and "failing_step env Data = Some s"
  shows "fst (PostCreate_try upcase draining completionContext env Data) = s \<and> \<not> NT_SUCCESS s"
  using assms
  by (auto simp: hit_reparse_tag_def failing_step_def PostCreate_try_def reissue_def
        split: if_splits)

text \<open>
  Claim C10.  After a create that hit the reparse tag of the driver, when one of the
  post-create steps (the reissued open, the untagging of a replaced file, the reading of
  the reparse data, the stream context) fails with a status other than
  \<open>STATUS_NOT_A_REPARSE_POINT\<close>, the callback cancels the open and the create
  completes with that status and an information value of zero.
\<close>

theorem PostCreate_cancels_on_failure:
  assumes "hit_reparse_tag upcase draining completionContext Data"
    and "failing_step env Data = Some s"
    and "s \<noteq> STATUS_NOT_A_REPARSE_POINT"
  shows "cr_cancelled (PostCreateOperationCallback upcase draining (Some completionContext) env Data) \<and>
         cd_Status (cr_Data (PostCreateOperationCallback upcase draining (Some completionContext) env Data)) = s \<and>
         cd_Information (cr_Data (PostCreateOperationCallback upcase draining (Some completionContext) env Data)) = 0"
proof -
  obtain st D where r: "PostCreate_try upcase draining completionContext env Data = (st, D)"
    by (cases "PostCreate_try upcase draining completionContext env Data")
  with PostCreate_try_status [OF assms(1,2)] have "st = s" and "\<not> NT_SUCCESS s"
    by simp_all
  then show ?thesis
    using assms(3) r by (simp add: PostCreateOperationCallback_def PostCreate_finally_def)
qed

theorem PostCreate_cancels_on_failure_witness:
  "cr_cancelled (PostCreateOperationCallback upcase_ascii False
      (Some \<lparr>cc_Stream = [], cc_OperationMode = 1, cc_ReportRate = 0\<rparr>)
      \<lparr>ce_reissue = (STATUS_SUCCESS, 1), ce_untag = STATUS_SUCCESS,
       ce_reparse_data = STATUS_SUCCESS, ce_context = STATUS_INSUFFICIENT_RESOURCES\<rparr>
      \<lparr>cd_Status = STATUS_REPARSE, cd_Information = 0x340, cd_TagData = Some LC_REPARSE_TAG,
       cd_Options = 0x01000060, cd_ShareAccess = 1, cd_DeletePending = False\<rparr>) \<and>
   cd_Status (cr_Data (PostCreateOperationCallback upcase_ascii False
      (Some \<lparr>cc_Stream = [], cc_OperationMode = 1, cc_ReportRate = 0\<rparr>)
      \<lparr>ce_reissue = (STATUS_SUCCESS, 1), ce_untag = STATUS_SUCCESS,
       ce_reparse_data = STATUS_SUCCESS, ce_context = STATUS_INSUFFICIENT_RESOURCES\<rparr>
      \<lparr>cd_Status = STATUS_REPARSE, cd_Information = 0x340, cd_TagData = Some LC_REPARSE_TAG,
       cd_Options = 0x01000060, cd_ShareAccess = 1, cd_DeletePending = False\<rparr>))
     = STATUS_INSUFFICIENT_RESOURCES \<and>
   cd_Information (cr_Data (PostCreateOperationCallback upcase_ascii False
      (Some \<lparr>cc_Stream = [], cc_OperationMode = 1, cc_ReportRate = 0\<rparr>)
      \<lparr>ce_reissue = (STATUS_SUCCESS, 1), ce_untag = STATUS_SUCCESS,
       ce_reparse_data = STATUS_SUCCESS, ce_context = STATUS_INSUFFICIENT_RESOURCES\<rparr>
      \<lparr>cd_Status = STATUS_REPARSE, cd_Information = 0x340, cd_TagData = Some LC_REPARSE_TAG,
       cd_Options = 0x01000060, cd_ShareAccess = 1, cd_DeletePending = False\<rparr>)) = 0"
proof -
  let ?cc = "\<lparr>cc_Stream = [], cc_OperationMode = 1, cc_ReportRate = 0\<rparr>"
  let ?env = "\<lparr>ce_reissue = (STATUS_SUCCESS, 1), ce_untag = STATUS_SUCCESS,
       ce_reparse_data = STATUS_SUCCESS, ce_context = STATUS_INSUFFICIENT_RESOURCES\<rparr>"
  let ?Data = "\<lparr>cd_Status = STATUS_REPARSE, cd_Information = 0x340,
       cd_TagData = Some LC_REPARSE_TAG,
       cd_Options = 0x01000060, cd_ShareAccess = 1, cd_DeletePending = False\<rparr>"
  have h: "hit_reparse_tag upcase_ascii False ?cc ?Data"
    by (simp add: hit_reparse_tag_def FlagOn_def FetchEnabled_def)
  have f: "failing_step ?env ?Data = Some STATUS_INSUFFICIENT_RESOURCES"
    by (simp add: failing_step_def reissue_needed_def file_replaced_def
          DefaultCreateOptions_def DefaultShareAccess_def FILE_CREATED_def
          FILE_OVERWRITTEN_def FILE_SUPERSEDED_def NT_SUCCESS_def STATUS_SUCCESS_def
          STATUS_INSUFFICIENT_RESOURCES_def FILE_OPEN_REPARSE_POINT_def
          FILE_OPEN_FOR_BACKUP_INTENT_def FILE_RANDOM_ACCESS_def FILE_WRITE_THROUGH_def
          FILE_SHARE_READ_def FILE_SHARE_WRITE_def)
  have n: "STATUS_INSUFFICIENT_RESOURCES \<noteq> STATUS_NOT_A_REPARSE_POINT"
    by (simp add: STATUS_INSUFFICIENT_RESOURCES_def STATUS_NOT_A_REPARSE_POINT_def)
  show ?thesis
    using PostCreate_cancels_on_failure [OF h f n] by simp
qed

subsection \<open>The paths to watch\<close>

lemma RtlPrefixUnicodeString_trans:
  "RtlPrefixUnicodeString upcase a b \<Longrightarrow> RtlPrefixUnicodeString upcase b c
     \<Longrightarrow> RtlPrefixUnicodeString upcase a c"
proof (induction upcase a b arbitrary: c rule: RtlPrefixUnicodeString.induct)
  case (3 upcase c1 s1 c2 s2)
  then show ?case by (cases c) auto
qed auto

lemma LcClearPathsToWatch_empty [simp]: "LcClearPathsToWatch ps = []"
  by (induction ps) auto

lemma LcIsPathWatched_Cons:
  "LcIsPathWatched upcase (p # ps) q
     \<longleftrightarrow> RtlPrefixUnicodeString upcase p q \<or> LcIsPathWatched upcase ps q"
  by (simp add: LcIsPathWatched_def)

lemma LcIsPathWatched_add_watched:
  "LcIsPathWatched upcase (add_watched upcase ps p) q
     \<longleftrightarrow> LcIsPathWatched upcase ps q \<or> RtlPrefixUnicodeString upcase p q"
proof (cases "LcIsPathWatched upcase ps p")
  case True
  then obtain e where e: "e \<in> set ps" "RtlPrefixUnicodeString upcase e p"
    by (auto simp: LcIsPathWatched_def list_ex_iff)
  have "LcIsPathWatched upcase ps q" if "RtlPrefixUnicodeString upcase p q"
    using e RtlPrefixUnicodeString_trans [OF e(2) that]
    by (auto simp: LcIsPathWatched_def list_ex_iff)
  with True show ?thesis by (auto simp: add_watched_def)
next
  case False
  then show ?thesis by (auto simp: add_watched_def LcIsPathWatched_Cons)
qed

lemma LcIsPathWatched_foldl:
  "LcIsPathWatched upcase (foldl (add_watched upcase) ps xs) q
     \<longleftrightarrow> LcIsPathWatched upcase ps q \<or> (\<exists>p\<in>set xs. RtlPrefixUnicodeString upcase p q)"
  by (induction xs arbitrary: ps) (auto simp: LcIsPathWatched_add_watched)

lemma not_NT_SUCCESS_errors [simp]:
  "\<not> NT_SUCCESS STATUS_INVALID_PARAMETER_1" "\<not> NT_SUCCESS STATUS_INVALID_PARAMETER_2"
  "\<not> NT_SUCCESS STATUS_INVALID_BUFFER_SIZE" "\<not> NT_SUCCESS STATUS_NAME_TOO_LONG"
  "\<not> NT_SUCCESS STATUS_INSUFFICIENT_RESOURCES"
  by (simp_all add: NT_SUCCESS_def STATUS_INVALID_PARAMETER_1_def STATUS_INVALID_PARAMETER_2_def
        STATUS_INVALID_BUFFER_SIZE_def STATUS_NAME_TOO_LONG_def
        STATUS_INSUFFICIENT_RESOURCES_def)

lemma LcAddPathToWatch_success:
  "LcAddPathToWatch upcase alloc copy p ps = (st, ps') \<Longrightarrow> NT_SUCCESS st
     \<Longrightarrow> ps' = add_watched upcase ps p"
  by (auto simp: LcAddPathToWatch_def add_watched_def split: if_splits)

lemma LcAddPathToWatch_failure:
  "LcAddPathToWatch upcase alloc copy p ps = (st, ps') \<Longrightarrow> \<not> NT_SUCCESS st \<Longrightarrow> ps' = ps"
  by (auto simp: LcAddPathToWatch_def split: if_splits)

lemma wcslen_take:
  "wcslen m = Some n \<Longrightarrow> take (Suc n) m = take n m @ [0] \<and> n < length m"
proof (induction m arbitrary: n)
  case (Cons c cs)
  then show ?case by (cases "c = 0") auto
qed simp

lemma watch_paths_loop_props:
  "watch_paths_loop upcase env sz k idx pos m st ps = r \<Longrightarrow> NT_SUCCESS st \<Longrightarrow>
     wr_paths r = foldl (add_watched upcase) ps (wr_processed r) \<and>
     take (length (concat (map (\<lambda>p. p @ [0]) (wr_processed r)))) m
       = concat (map (\<lambda>p. p @ [0]) (wr_processed r)) \<and>
     (\<not> NT_SUCCESS (wr_status r) \<longrightarrow> length (wr_processed r) < k)"
proof (induction k arbitrary: idx pos m st ps r)
  case 0
  then show ?case by auto
next
  case (Suc k)
  show ?case
  proof (cases "wcslen m")
    case None
    with Suc.prems show ?thesis by auto
  next
    case (Some n)
    note tk = wcslen_take [OF Some]
    obtain st' ps' where add:
      "LcAddPathToWatch upcase (we_alloc env idx) (we_copy env idx) (take n m) ps = (st', ps')"
      by (cases "LcAddPathToWatch upcase (we_alloc env idx) (we_copy env idx) (take n m) ps")
    show ?thesis
    proof (cases "4 + 2 * pos + (n + 1) * 2 \<le> sz \<and> NT_SUCCESS (RtlInitUnicodeStringEx n)
                   \<and> NT_SUCCESS st'")
      case False
      with Suc.prems Some add LcAddPathToWatch_failure [OF add] show ?thesis
        by (auto simp: Let_def)
    next
      case True
      define r' where "r' = watch_paths_loop upcase env sz k (idx + 1) (pos + n + 1)
                              (drop (n + 1) m) st' ps'"
      have r: "r = r'\<lparr>wr_processed := take n m # wr_processed r'\<rparr>"
        using Suc.prems(1) Some add True by (simp add: Let_def r'_def)
      have ih: "wr_paths r' = foldl (add_watched upcase) ps' (wr_processed r') \<and>
        take (length (concat (map (\<lambda>p. p @ [0]) (wr_processed r')))) (drop (n + 1) m)
          = concat (map (\<lambda>p. p @ [0]) (wr_processed r')) \<and>
        (\<not> NT_SUCCESS (wr_status r') \<longrightarrow> length (wr_processed r') < k)"
        using True by (intro Suc.IH [OF r'_def [symmetric]]) simp
      have ps': "ps' = add_watched upcase ps (take n m)"
        using LcAddPathToWatch_success [OF add] True by simp
      let ?c = "concat (map (\<lambda>p. p @ [0]) (wr_processed r'))"
      have len: "length (take n m @ [0] @ ?c) = Suc n + length ?c"
        using tk by simp
      have "take (Suc n + length ?c) m = take (Suc n) m @ take (length ?c) (drop (Suc n) m)"
        by (rule take_add)
      then have tk2: "take (length (take n m @ [0] @ ?c)) m = take n m @ [0] @ ?c"
        using tk ih by (simp only: len) simp
      show ?thesis
        using r ih ps' tk2 by simp
    qed
  qed
qed

text \<open>
  Claim C9.  Once the handler is past its argument checks, its result does not depend on
  the paths watched before: the list is emptied before the first path of the new list
  is looked at.  The strings added with success are the leading strings of the buffer;
  the list left behind is what adding these strings to the empty list gives, so a path
  is watched afterwards exactly when one of them is a prefix of it; and when the
  handler returns an error they are fewer than \<open>PathCount\<close>, a proper prefix of the
  new list, with nothing of the previous list restored.
\<close>

theorem LcSetWatchPathsHandler_not_atomic:
  assumes "4 \<le> InputBufferSize"
  shows
    "LcSetWatchPathsHandler upcase env (Some watchPaths) InputBufferSize PathsToWatch
       = LcSetWatchPathsHandler upcase env (Some watchPaths) InputBufferSize [] \<and>
     wr_paths (LcSetWatchPathsHandler upcase env (Some watchPaths) InputBufferSize PathsToWatch)
       = foldl (add_watched upcase) []
           (wr_processed (LcSetWatchPathsHandler upcase env (Some watchPaths) InputBufferSize PathsToWatch)) \<and>
     (\<forall>q. LcIsPathWatched upcase
             (wr_paths (LcSetWatchPathsHandler upcase env (Some watchPaths) InputBufferSize PathsToWatch)) q
           \<longleftrightarrow> (\<exists>p\<in>set (wr_processed (LcSetWatchPathsHandler upcase env (Some watchPaths)
                                InputBufferSize PathsToWatch)).
                  RtlPrefixUnicodeString upcase p q)) \<and>
     take (length (concat (map (\<lambda>p. p @ [0])
            (wr_processed (LcSetWatchPathsHandler upcase env (Some watchPaths) InputBufferSize PathsToWatch)))))
          (wp_Data watchPaths)
       = concat (map (\<lambda>p. p @ [0])
            (wr_processed (LcSetWatchPathsHandler upcase env (Some watchPaths) InputBufferSize PathsToWatch))) \<and>
     (\<not> NT_SUCCESS (wr_status (LcSetWatchPathsHandler upcase env (Some watchPaths)
                                  InputBufferSize PathsToWatch)) \<longrightarrow>
        length (wr_processed (LcSetWatchPathsHandler upcase env (Some watchPaths)
                                InputBufferSize PathsToWatch))
          < unat (wp_PathCount watchPaths))"
proof -
  let ?r = "LcSetWatchPathsHandler upcase env (Some watchPaths) InputBufferSize PathsToWatch"
  have r: "?r = watch_paths_loop upcase env InputBufferSize (unat (wp_PathCount watchPaths)) 0 0
                  (wp_Data watchPaths) STATUS_SUCCESS []"
    using assms by (simp add: LcSetWatchPathsHandler_def)
  have indep: "?r = LcSetWatchPathsHandler upcase env (Some watchPaths) InputBufferSize []"
    using assms by (simp add: LcSetWatchPathsHandler_def)
  note p = watch_paths_loop_props [OF r [symmetric] NT_SUCCESS_STATUS_SUCCESS]
  have w: "LcIsPathWatched upcase (wr_paths ?r) q
           \<longleftrightarrow> (\<exists>p\<in>set (wr_processed ?r). RtlPrefixUnicodeString upcase p q)" for q
    using p LcIsPathWatched_foldl [of upcase "[]" "wr_processed ?r" q]
    by (simp add: LcIsPathWatched_def)
  show ?thesis
    using indep p w by blast
qed

theorem LcSetWatchPathsHandler_not_atomic_witness:
  "LcSetWatchPathsHandler upcase_ascii
      \<lparr>we_alloc = (\<lambda>i. STATUS_SUCCESS), we_copy = (\<lambda>i. STATUS_SUCCESS),
       we_exception = STATUS_ACCESS_VIOLATION\<rparr>
      (Some \<lparr>wp_PathCount = 2, wp_Data = [0x5C, 0x61, 0x5C, 0, 0x62, 0]\<rparr>) 16
      [[0x5C, 0x78, 0x5C]]
     = \<lparr>wr_status = STATUS_INVALID_PARAMETER_1, wr_paths = [[0x5C, 0x61, 0x5C]],
        wr_processed = [[0x5C, 0x61, 0x5C]]\<rparr> \<and>
   \<not> NT_SUCCESS STATUS_INVALID_PARAMETER_1 \<and>
   length [[0x5C, 0x61, 0x5C :: WCHAR]] < unat (2 :: ULONG) \<and>
   LcSetWatchPathsHandler upcase_ascii
      \<lparr>we_alloc = (\<lambda>i. STATUS_SUCCESS), we_copy = (\<lambda>i. STATUS_SUCCESS),
       we_exception = STATUS_ACCESS_VIOLATION\<rparr>
      (Some \<lparr>wp_PathCount = 2, wp_Data = [0x5C, 0x61, 0x5C, 0, 0x62, 0]\<rparr>) 16
      [[0x5C, 0x78, 0x5C]]
     = LcSetWatchPathsHandler upcase_ascii
      \<lparr>we_alloc = (\<lambda>i. STATUS_SUCCESS), we_copy = (\<lambda>i. STATUS_SUCCESS),
       we_exception = STATUS_ACCESS_VIOLATION\<rparr>
      (Some \<lparr>wp_PathCount = 2, wp_Data = [0x5C, 0x61, 0x5C, 0, 0x62, 0]\<rparr>) 16 []"
proof -
  let ?env = "\<lparr>we_alloc = (\<lambda>i. STATUS_SUCCESS), we_copy = (\<lambda>i. STATUS_SUCCESS),
       we_exception = STATUS_ACCESS_VIOLATION\<rparr>"
  let ?wp = "\<lparr>wp_PathCount = 2, wp_Data = [0x5C, 0x61, 0x5C, 0, 0x62, 0]\<rparr>"
  have e: "LcSetWatchPathsHandler upcase_ascii ?env (Some ?wp) 16 [[0x5C, 0x78, 0x5C]]
     = \<lparr>wr_status = STATUS_INVALID_PARAMETER_1, wr_paths = [[0x5C, 0x61, 0x5C]],
        wr_processed = [[0x5C, 0x61, 0x5C]]\<rparr>"
    by code_simp
  have s: "(4::nat) \<le> 16" by simp
  note t = LcSetWatchPathsHandler_not_atomic [OF s, of upcase_ascii ?env ?wp "[[0x5C, 0x78, 0x5C]]"]
  show ?thesis
  proof (intro conjI)
    show "LcSetWatchPathsHandler upcase_ascii ?env (Some ?wp) 16 [[0x5C, 0x78, 0x5C]]
            = LcSetWatchPathsHandler upcase_ascii ?env (Some ?wp) 16 []"
      using t by (rule conjunct1)
  qed (simp_all add: e)
qed

subsection \<open>The chunked fetch engine\<close>

lemma chunks_bounded_complete_read [simp]: "chunks_bounded (complete_read s) = chunks_bounded s"
  by (simp add: complete_read_def chunks_bounded_def split: list.splits)

lemma chunks_bounded_LcWriteCallback [simp]: "chunks_bounded (LcWriteCallback s) = chunks_bounded s"
  by (simp add: LcWriteCallback_def chunks_bounded_def split: option.splits)

lemma chunks_bounded_fetchStatus [simp]:
  "chunks_bounded (s\<lparr>fetchStatus := st\<rparr>) = chunks_bounded s"
  by (simp add: chunks_bounded_def)

lemma chunks_bounded_BytesInBuffer:
  "chunks_bounded (s\<lparr>chunks := (chunks s)(c := (chunks s c)\<lparr>BytesInBuffer := b\<rparr>)\<rparr>)
     = chunks_bounded s"
  by (auto simp: chunks_bounded_def list_all_iff)

lemma chunks_bounded_take_read:
  "take_read s = Go s' \<or> take_read s = Leave st s' \<Longrightarrow> chunks_bounded s' = chunks_bounded s"
  by (auto simp: take_read_def Let_def chunks_bounded_def list_all_iff
           split: option.splits if_splits)

lemma set_insert_before [simp]: "set (insert_before n e xs) = insert n (set xs)"
  by (induction xs) auto

lemma length_insert_before [simp]: "length (insert_before n e xs) = Suc (length xs)"
  by (induction xs) auto

lemma min_ChunkSize_le: "min ChunkSize x \<le> ChunkSize"
  by simp

lemma unat_MaxChunks: "unat MaxChunks = 4"
  by (simp add: MaxChunks_def)

lemma chunks_bounded_LcAddNewChunk:
  assumes "LcAddNewChunk env e rem s = (st, r, s')" and "chunks_bounded s"
    and "chunkListLength s < MaxChunks"
  shows "chunks_bounded s'"
proof (cases r)
  case None
  with assms(1) have "s' = s"
    by (auto simp: LcAddNewChunk_def Let_def split: if_splits)
  with assms(2) show ?thesis by simp
next
  case (Some c)
  with assms(1) have s': "s' = s\<lparr>chunks := (chunks s)(length (ring s) :=
         \<lparr>BufferSize = min ChunkSize (ucast rem), BytesInBuffer = 0\<rparr>),
       ring := insert_before (length (ring s)) e (ring s),
       chunkListLength := chunkListLength s + 1\<rparr>"
    by (auto simp: LcAddNewChunk_def Let_def split: if_splits)
  have lt: "length (ring s) < 4"
    using assms(2,3) by (simp add: chunks_bounded_def word_less_nat_alt unat_MaxChunks)
  have "unat (chunkListLength s + 1) = Suc (unat (chunkListLength s))"
    using assms(2) lt by (simp add: chunks_bounded_def unat_word_ariths)
  then show ?thesis
    using assms(2) lt unfolding s' chunks_bounded_def
    by (auto simp: list_all_iff unat_MaxChunks)
qed

lemma chunks_bounded_wait_for_write:
  "wait_for_write env s = (st, s') \<Longrightarrow> chunks_bounded s' = chunks_bounded s"
  by (auto simp: wait_for_write_def split: if_splits)

lemma chunks_bounded_next_read:
  assumes "LcGetNextAvailableChunk_read env s = Go (c, s') \<or>
           LcGetNextAvailableChunk_read env s = Leave st s'"
    and "chunks_bounded s"
  shows "chunks_bounded s'"
  using assms
  by (auto simp: LcGetNextAvailableChunk_read_def
           split: option.splits if_splits prod.splits
           dest: chunks_bounded_LcAddNewChunk chunks_bounded_wait_for_write)

lemma chunks_bounded_remainingBytes [simp]:
  "chunks_bounded (s\<lparr>remainingBytes := x\<rparr>) = chunks_bounded s"
  by (simp add: chunks_bounded_def)

lemma chunks_bounded_issue_read:
  assumes "issue_read env s = Go s' \<or> issue_read env s = Leave st s'"
    and "chunks_bounded s"
  shows "chunks_bounded s'"
proof -
  let ?s1 = "if sint (remainingBytes s) \<le> 0 then s\<lparr>remainingBytes := ucast ChunkSize\<rparr> else s"
  have b1: "chunks_bounded ?s1" using assms(2) by simp
  show ?thesis
  proof (cases "LcGetNextAvailableChunk_read env ?s1")
    case (Go p)
    obtain c s2 where p: "p = (c, s2)" by (cases p)
    have b2: "chunks_bounded s2"
      using chunks_bounded_next_read [of env ?s1 c s2] Go p b1 by simp
    have "chunks_bounded s' = chunks_bounded s2"
      using assms(1) Go p
      by (auto simp: issue_read_def Let_def chunks_bounded_def split: prod.splits if_splits)
    with b2 show ?thesis by simp
  next
    case (Leave st2 s2)
    have "chunks_bounded s2"
      using chunks_bounded_next_read [of env ?s1 _ s2 st2] Leave b1 by simp
    moreover have "s' = s2"
      using assms(1) Leave by (auto simp: issue_read_def Let_def)
    ultimately show ?thesis by simp
  next
    case Fault
    with assms(1) show ?thesis by (auto simp: issue_read_def Let_def)
  qed
qed

lemma chunks_bounded_read_side:
  assumes "read_side env rc s = Go s' \<or> read_side env rc s = Leave st s'"
    and "chunks_bounded s"
  shows "chunks_bounded s'"
proof (cases "\<not> eof s \<and> rc")
  case False
  with assms show ?thesis by (auto simp: read_side_def)
next
  case True
  show ?thesis
  proof (cases "take_read s")
    case (Go s1)
    have b1: "chunks_bounded s1"
      using chunks_bounded_take_read [of s s1] Go assms(2) by simp
    show ?thesis
    proof (cases "eof s1")
      case True
      with assms(1) \<open>\<not> eof s \<and> rc\<close> Go b1 show ?thesis by (auto simp: read_side_def)
    next
      case False
      with assms(1) \<open>\<not> eof s \<and> rc\<close> Go
      have "issue_read env s1 = Go s' \<or> issue_read env s1 = Leave st s'"
        by (auto simp: read_side_def)
      then show ?thesis using b1 by (rule chunks_bounded_issue_read)
    qed
  next
    case (Leave st1 s1)
    have "chunks_bounded s1"
      using chunks_bounded_take_read [of s s1 st1] Leave assms(2) by simp
    with assms(1) True Leave show ?thesis by (auto simp: read_side_def)
  next
    case Fault
    with assms(1) True show ?thesis by (auto simp: read_side_def)
  qed
qed

lemma chunks_bounded_take_write:
  "take_write s = Go s' \<or> take_write s = Leave st s' \<Longrightarrow> chunks_bounded s' = chunks_bounded s"
  by (auto simp: take_write_def LcGetNextAvailableChunk_write_def Let_def chunks_bounded_def
                 list_all_iff
           split: option.splits if_splits prod.splits outcome.splits)

lemma chunks_bounded_write_side:
  assumes "state_of (write_side env s) = Some s'" and "chunks_bounded s"
  shows "chunks_bounded s'"
proof -
  let ?o = "if \<not> waitingForRead s then take_write s else Go s"
  show ?thesis
  proof (cases ?o)
    case (Go s1)
    have b1: "chunks_bounded s1"
      using Go assms(2) chunks_bounded_take_write [of s s1]
      by (auto split: if_splits)
    have "chunks_bounded s' = chunks_bounded s1"
      using assms(1) Go
      by (auto simp: write_side_def Let_def chunks_bounded_def
               split: option.splits if_splits prod.splits)
    with b1 show ?thesis by simp
  next
    case (Leave st1 s1)
    have "chunks_bounded s1"
      using Leave assms(2) chunks_bounded_take_write [of s s1 st1]
      by (auto split: if_splits)
    with assms(1) Leave show ?thesis by (auto simp: write_side_def)
  next
    case Fault
    with assms(1) show ?thesis by (auto simp: write_side_def)
  qed
qed

lemma chunks_bounded_fetch_iteration:
  assumes "state_of (fetch_iteration env s) = Some s'" and "chunks_bounded s"
  shows "chunks_bounded s'"
proof -
  let ?s1 = "if io_read_done env then complete_read s else s"
  let ?s2 = "if waitingForRead ?s1 then ?s1\<lparr>fetchStatus := wait_for_source ?s1\<rparr> else ?s1"
  let ?s3 = "if io_write_done env then LcWriteCallback ?s2 else ?s2"
  let ?rc = "if waitingForRead ?s1 then True else wait_for_source ?s1 = STATUS_SUCCESS"
  have b1: "chunks_bounded ?s1" using assms(2) by simp
  then have b3: "chunks_bounded ?s3" by simp
  show ?thesis
  proof (cases "waitingForRead ?s1 \<and> \<not> NT_SUCCESS (wait_for_source ?s1)")
    case True
    with assms(1) have "s' = ?s1\<lparr>fetchStatus := wait_for_source ?s1\<rparr>"
      by (simp add: fetch_iteration_def Let_def)
    with b1 show ?thesis by simp
  next
    case False
    show ?thesis
    proof (cases "read_side env ?rc ?s3")
      case (Go s4)
      have b4: "chunks_bounded s4"
        using chunks_bounded_read_side [of env ?rc ?s3 s4] Go b3 by simp
      have "s' = s4 \<or> state_of (write_side env s4) = Some s'"
        using assms(1) False Go by (auto simp: fetch_iteration_def Let_def split: if_splits)
      then show ?thesis using b4 chunks_bounded_write_side by blast
    next
      case (Leave st4 s4)
      have "chunks_bounded s4"
        using chunks_bounded_read_side [of env ?rc ?s3 s4 st4] Leave b3 by simp
      moreover have "s' = s4"
        using assms(1) False Leave by (auto simp: fetch_iteration_def Let_def)
      ultimately show ?thesis by simp
    next
      case Fault
      with assms(1) False show ?thesis by (auto simp: fetch_iteration_def Let_def)
    qed
  qed
qed

lemma chunks_bounded_initial: "chunks_bounded ((initial_fetch_state g sz)\<lparr>chunkListLength := 0, ring := []\<rparr>)"
  by (simp add: chunks_bounded_def initial_fetch_state_def)

lemma LcAddNewChunk_length:
  "LcAddNewChunk env e rem s = (st, Some c, s') \<Longrightarrow>
     chunkListLength s' = chunkListLength s + 1 \<and> length (ring s') = Suc (length (ring s))"
  by (auto simp: LcAddNewChunk_def Let_def split: if_splits)

lemma chunks_bounded_LcInitializeChunksList:
  assumes "LcInitializeChunksList env sz (initial_fetch_state g sz) = (st, s)"
  shows "chunks_bounded s"
proof -
  let ?s0 = "(initial_fetch_state g sz)\<lparr>chunkListLength := 0, ring := []\<rparr>"
  have b0: "chunks_bounded ?s0" by (rule chunks_bounded_initial)
  have l0: "chunkListLength ?s0 < MaxChunks" by (simp add: MaxChunks_def)
  obtain st1 r1 s1 where a1: "LcAddNewChunk env None sz ?s0 = (st1, r1, s1)"
    by (cases "LcAddNewChunk env None sz ?s0")
  have b1: "chunks_bounded s1" using chunks_bounded_LcAddNewChunk [OF a1 b0 l0] .
  show ?thesis
  proof (cases r1)
    case None
    with assms a1 b0 show ?thesis by (auto simp: LcInitializeChunksList_def Let_def)
  next
    case (Some c1)
    have l1: "chunkListLength s1 < MaxChunks"
      using LcAddNewChunk_length [of env None sz ?s0 st1 c1 s1] a1 Some
      by (simp add: MaxChunks_def)
    let ?sz1 = "sz - ucast (BufferSize (chunks s1 c1))"
    obtain st2 r2 s2 where a2: "LcAddNewChunk env None ?sz1 s1 = (st2, r2, s2)"
      by (cases "LcAddNewChunk env None ?sz1 s1")
    have b2: "chunks_bounded s2" using chunks_bounded_LcAddNewChunk [OF a2 b1 l1] .
    show ?thesis
      using assms a1 Some a2 b0 b1 b2
      by (cases r2) (auto simp: LcInitializeChunksList_def Let_def split: if_splits)
  qed
qed

lemma fetch_reaches_chunks_bounded: "fetch_reaches sz s \<Longrightarrow> chunks_bounded s"
proof (induction rule: fetch_reaches.induct)
  case (start env0 signaled status s)
  then show ?case by (rule chunks_bounded_LcInitializeChunksList)
next
  case (iterate s env s')
  then show ?case using chunks_bounded_fetch_iteration by blast
qed

lemma NT_SUCCESS_PENDING [simp]: "NT_SUCCESS STATUS_PENDING"
  by (simp add: NT_SUCCESS_def STATUS_PENDING_def)



lemma reads_pending_or_failed_prompt_io [simp]: "reads_pending_or_failed (prompt_io actual)"
  by (simp add: reads_pending_or_failed_def prompt_io_def source_file_def)

lemma fetch_run_reaches:
  "fetch_run envs s = Some s' \<Longrightarrow> fetch_reaches sz s \<Longrightarrow> fetch_reaches sz s'"
proof (induction envs arbitrary: s)
  case Nil
  then show ?case by simp
next
  case (Cons env envs)
  show ?case
  proof (cases "fetch_iteration env s")
    case (Continue s1)
    then have "state_of (fetch_iteration env s) = Some s1" by simp
    with Cons.prems(2) have "fetch_reaches sz s1" by (rule fetch_reaches.iterate)
    moreover have "fetch_run envs s1 = Some s'" using Cons.prems(1) Continue by simp
    ultimately show ?thesis by (rule Cons.IH [rotated])
  qed (use Cons.prems(1) in simp_all)
qed

lemma LcAddNewChunk_BufferSize:
  assumes "LcAddNewChunk env Entry RemainingBytes s = (status, Some newChunk, s')"
  shows "BufferSize (chunks s' newChunk) = min ChunkSize (ucast RemainingBytes)"
  using assms by (auto simp: LcAddNewChunk_def Let_def split: if_splits)

lemma sint_nonneg_eq_uint:
  assumes "0 \<le> sint (w::'a::len word)"
  shows "sint w = uint w"
proof -
  have "sint w < 2 ^ (LENGTH('a) - 1)" by (rule sint_lt)
  also have "(2::int) ^ (LENGTH('a) - 1) \<le> 2 ^ LENGTH('a)"
    by (rule power_increasing) simp_all
  finally have "take_bit LENGTH('a) (sint w) = sint w"
    using assms by (rule take_bit_int_eq_self [rotated])
  then show ?thesis by (simp only: uint_sint)
qed

lemma uint_ChunkSize: "uint ChunkSize = 131072"
  by (simp add: ChunkSize_def)

lemma buffer_cap:
  fixes RemainingBytes :: LONGLONG
  assumes "0 < sint RemainingBytes"
  shows "uint (min ChunkSize (ucast RemainingBytes :: ULONG)) \<le> min 131072 (sint RemainingBytes)"
    and "sint RemainingBytes < 2 ^ 32 \<Longrightarrow>
         uint (min ChunkSize (ucast RemainingBytes :: ULONG)) = min 131072 (sint RemainingBytes)"
proof -
  have u: "sint RemainingBytes = uint RemainingBytes"
    using assms by (simp add: sint_nonneg_eq_uint)
  have c: "uint (ucast RemainingBytes :: ULONG) = uint RemainingBytes mod 2 ^ 32"
    by (simp add: unsigned_ucast_eq take_bit_eq_mod)
  have m: "uint (min ChunkSize (ucast RemainingBytes :: ULONG)) =
           min 131072 (uint RemainingBytes mod 2 ^ 32)"
    by (simp add: min_def word_le_def uint_ChunkSize c)
  have "uint RemainingBytes mod 2 ^ 32 \<le> uint RemainingBytes"
    by (simp add: zmod_le_nonneg_dividend)
  then show "uint (min ChunkSize (ucast RemainingBytes :: ULONG)) \<le> min 131072 (sint RemainingBytes)"
    unfolding m u by simp
  show "uint (min ChunkSize (ucast RemainingBytes :: ULONG)) = min 131072 (sint RemainingBytes)"
    if "sint RemainingBytes < 2 ^ 32"
    using that unfolding m u by simp
qed

lemma LcGetNextAvailableChunk_read_grows:
  assumes "LcGetNextAvailableChunk_read env s = Go (chunk, s')" and "ring s' \<noteq> ring s"
  shows "chunkListLength s < MaxChunks"
proof (rule ccontr)
  assume n: "\<not> chunkListLength s < MaxChunks"
  obtain st w where w: "wait_for_write env s = (st, w)" by (cases "wait_for_write env s")
  have "ring w = ring s"
    using w by (auto simp: wait_for_write_def LcWriteCallback_def split: if_splits option.splits)
  then have "ring s' = ring s"
    using assms(1) n w
    by (auto simp: LcGetNextAvailableChunk_read_def split: option.splits if_splits)
  with assms(2) show False by simp
qed

lemma LcGetNextAvailableChunk_read_waits:
  assumes "\<not> chunkListLength s < MaxChunks" and "next_chunk (ring s) (readChunk s) = Some chunk"
    and "BytesInBuffer (chunks s chunk) \<noteq> 0"
  shows "LcGetNextAvailableChunk_read env s =
           (if \<not> NT_SUCCESS (fst (wait_for_write env s))
            then Leave (fst (wait_for_write env s)) (snd (wait_for_write env s))
            else Go (chunk, (snd (wait_for_write env s))\<lparr>fetchStatus := fst (wait_for_write env s)\<rparr>))"
  using assms by (simp add: LcGetNextAvailableChunk_read_def split: prod.splits)

text \<open>
  Claim C4.  In every state a run of \<open>LcFetchFileByChunks\<close> passes through (after the
  initialisation of the list and after each iteration of the loop, whatever the
  allocations and the I/O do), the list holds at most \<open>MaxChunks = 4\<close> chunks and the
  buffer of each is at most \<open>ChunkSize = 128 KiB\<close>.  \<open>LcGetNextAvailableChunk\<close> for a read
  changes the list only when its length is below \<open>MaxChunks\<close>; at \<open>MaxChunks\<close>, with the
  next chunk not yet written, it waits for the write event instead.  A chunk added by
  \<open>LcAddNewChunk\<close> has a buffer of \<open>min(ChunkSize, (ULONG)RemainingBytes)\<close> bytes, which
  for a positive \<open>RemainingBytes\<close> is at most \<open>min(ChunkSize, RemainingBytes)\<close> and equal
  to it when \<open>RemainingBytes\<close> fits in 32 bits.
\<close>

theorem fetch_chunk_list_bounded:
  "(fetch_reaches SourceFileSize s \<longrightarrow>
      length (ring s) \<le> 4 \<and>
      list_all (\<lambda>c. uint (BufferSize (chunks s c)) \<le> 128 * 1024) (ring s)) \<and>
   (LcGetNextAvailableChunk_read env s = Go (chunk, s') \<and> ring s' \<noteq> ring s \<longrightarrow>
      chunkListLength s < MaxChunks) \<and>
   (\<not> chunkListLength s < MaxChunks \<and> next_chunk (ring s) (readChunk s) = Some chunk \<and>
    BytesInBuffer (chunks s chunk) \<noteq> 0 \<longrightarrow>
      LcGetNextAvailableChunk_read env s =
        (if \<not> NT_SUCCESS (fst (wait_for_write env s))
         then Leave (fst (wait_for_write env s)) (snd (wait_for_write env s))
         else Go (chunk, (snd (wait_for_write env s))\<lparr>fetchStatus := fst (wait_for_write env s)\<rparr>))) \<and>
   (LcAddNewChunk env Entry RemainingBytes s = (status, Some newChunk, s') \<longrightarrow>
      BufferSize (chunks s' newChunk) = min ChunkSize (ucast RemainingBytes) \<and>
      (0 < sint RemainingBytes \<longrightarrow>
         uint (BufferSize (chunks s' newChunk)) \<le> min (128 * 1024) (sint RemainingBytes)) \<and>
      (0 < sint RemainingBytes \<and> sint RemainingBytes < 2 ^ 32 \<longrightarrow>
         uint (BufferSize (chunks s' newChunk)) = min (128 * 1024) (sint RemainingBytes)))"
proof (intro conjI impI)
  assume r: "fetch_reaches SourceFileSize s"
  have b: "chunks_bounded s" using r by (rule fetch_reaches_chunks_bounded)
  show "length (ring s) \<le> 4" using b by (simp add: chunks_bounded_def MaxChunks_def)
  show "list_all (\<lambda>c. uint (BufferSize (chunks s c)) \<le> 128 * 1024) (ring s)"
    using b by (simp add: chunks_bounded_def list_all_iff word_le_def uint_ChunkSize)
next
  assume "LcGetNextAvailableChunk_read env s = Go (chunk, s') \<and> ring s' \<noteq> ring s"
  then show "chunkListLength s < MaxChunks"
    using LcGetNextAvailableChunk_read_grows by blast
next
  assume "\<not> chunkListLength s < MaxChunks \<and> next_chunk (ring s) (readChunk s) = Some chunk \<and>
          BytesInBuffer (chunks s chunk) \<noteq> 0"
  then show "LcGetNextAvailableChunk_read env s =
        (if \<not> NT_SUCCESS (fst (wait_for_write env s))
         then Leave (fst (wait_for_write env s)) (snd (wait_for_write env s))
         else Go (chunk, (snd (wait_for_write env s))\<lparr>fetchStatus := fst (wait_for_write env s)\<rparr>))"
    using LcGetNextAvailableChunk_read_waits by blast
next
  assume a: "LcAddNewChunk env Entry RemainingBytes s = (status, Some newChunk, s')"
  show e: "BufferSize (chunks s' newChunk) = min ChunkSize (ucast RemainingBytes)"
    using a by (rule LcAddNewChunk_BufferSize)
  show "uint (BufferSize (chunks s' newChunk)) \<le> min (128 * 1024) (sint RemainingBytes)"
    if "0 < sint RemainingBytes"
    unfolding e using buffer_cap(1) [OF that] by simp
  show "uint (BufferSize (chunks s' newChunk)) = min (128 * 1024) (sint RemainingBytes)"
    if "0 < sint RemainingBytes \<and> sint RemainingBytes < 2 ^ 32"
    unfolding e using buffer_cap(2) [of RemainingBytes] that by simp
qed

text \<open>
  The theorem at the state a fetch of 1000000 bytes is in after six iterations in which the
  reads complete and the writes do not: the list has grown to four chunks and stays there.
\<close>

theorem fetch_chunk_list_bounded_witness:
  "ring (the (fetch_run (replicate 6 (stalled_writes 1000000))
           (snd (LcInitializeChunksList (prompt_io 1000000) 1000000
                   (initial_fetch_state True 1000000))))) = [2, 3, 0, 1] \<and>
   length (ring (the (fetch_run (replicate 6 (stalled_writes 1000000))
           (snd (LcInitializeChunksList (prompt_io 1000000) 1000000
                   (initial_fetch_state True 1000000)))))) \<le> 4 \<and>
   list_all (\<lambda>c. uint (BufferSize (chunks (the (fetch_run (replicate 6 (stalled_writes 1000000))
           (snd (LcInitializeChunksList (prompt_io 1000000) 1000000
                   (initial_fetch_state True 1000000))))) c)) \<le> 128 * 1024)
     (ring (the (fetch_run (replicate 6 (stalled_writes 1000000))
           (snd (LcInitializeChunksList (prompt_io 1000000) 1000000
                   (initial_fetch_state True 1000000))))))"
proof -
  let ?init = "snd (LcInitializeChunksList (prompt_io 1000000) 1000000
                    (initial_fetch_state True 1000000))"
  let ?st = "the (fetch_run (replicate 6 (stalled_writes 1000000)) ?init)"
  have "fetch_run (replicate 6 (stalled_writes 1000000)) ?init \<noteq> None" by code_simp
  then have run: "fetch_run (replicate 6 (stalled_writes 1000000)) ?init = Some ?st"
    by (rule option.collapse [symmetric])
  have "fetch_reaches 1000000 ?init"
    by (rule fetch_reaches.start [OF surjective_pairing])
  with run have r: "fetch_reaches 1000000 ?st" by (rule fetch_run_reaches)
  have e: "ring ?st = [2, 3, 0, 1]" by code_simp
  show ?thesis
    by (rule conjI [OF e fetch_chunk_list_bounded [THEN conjunct1, THEN mp, OF r]])
qed

subsection \<open>The bookkeeping of the writes\<close>

lemma wview_fields:
  assumes "wview s' = wview s"
  shows "totalBytesWritten s' = totalBytesWritten s"
    and "destinationFileOffset s' = destinationFileOffset s"
    and "writesCounted s' = writesCounted s"
    and "writesIssued s' = writesIssued s"
    and "waitingForRead s' = waitingForRead s"
    and "writeChunk s' = writeChunk s"
    and "writeEvent s' = writeEvent s"
    and "writeInFlight s' = writeInFlight s"
    and "writeCallbackContext s' = writeCallbackContext s"
  using assms by (simp_all add: wview_def)


lemma writes_settled_wview:
  assumes "wview s' = wview s"
  shows "writes_settled s' = writes_settled s"
  unfolding writes_settled_def wview_fields [OF assms] ..

lemma wview_complete_read [simp]: "wview (complete_read s) = wview s"
  by (simp add: complete_read_def wview_def split: list.splits)

lemma wview_fetchStatus [simp]: "wview (s\<lparr>fetchStatus := st\<rparr>) = wview s"
  by (simp add: wview_def)

lemma wview_remainingBytes [simp]: "wview (s\<lparr>remainingBytes := x\<rparr>) = wview s"
  by (simp add: wview_def)























subsection \<open>Concurrent accesses\<close>

lemma number_update:
  "t < length ps \<Longrightarrow>
   number P (ps[t := p]) + of_bool (P (ps ! t)) = number P ps + of_bool (P p)"
proof (induction ps arbitrary: t)
  case Nil
  then show ?case by simp
next
  case (Cons q ps)
  show ?case
  proof (cases t)
    case 0
    then show ?thesis by (simp add: number_def)
  next
    case (Suc u)
    then have "u < length ps" using Cons.prems by simp
    from Cons.IH [OF this] Suc show ?thesis by (simp add: number_def)
  qed
qed

lemma number_update_same:
  "t < length ps \<Longrightarrow> P p = P (ps ! t) \<Longrightarrow> number P (ps[t := p]) = number P ps"
  using number_update [of t ps P p] by simp

lemma number_le_length: "number P ps \<le> length ps"
  by (simp add: number_def)

lemma number_pos: "t < length ps \<Longrightarrow> P (ps ! t) \<Longrightarrow> 0 < number P ps"
  using nth_mem [of t ps] by (auto simp: number_def filter_empty_conv)

lemma owns_holds: "owns a p \<Longrightarrow> holds a p"
  by (cases p) auto

lemma at_address_same [simp]: "Address e = a \<Longrightarrow> at_address a f e = f e"
  by (simp add: at_address_def)

lemma at_address_other [simp]: "Address e \<noteq> a \<Longrightarrow> at_address a f e = e"
  by (simp add: at_address_def)

lemma map_at_address_absent:
  "\<forall>x\<in>set L. Address x \<noteq> a \<Longrightarrow> map (at_address a f) L = L"
  by (induction L) (auto simp: at_address_def)

lemma Address_at_address [simp]:
  "(\<And>x. Address (f x) = Address x) \<Longrightarrow> Address (at_address a f e) = Address e"
  by (simp add: at_address_def)

lemma reference_entry_Some:
  assumes "reference_entry upcase name L = Some (a, L')"
    and "distinct (map Address L)"
  shows "(\<exists>e\<in>set L. Address e = a \<and> map upcase (FileName e) = map upcase name) \<and>
         L' = map (at_address a (\<lambda>e. e\<lparr>RefCount := RefCount e + 1\<rparr>)) L"
  using assms
proof (induction L arbitrary: L')
  case Nil
  then show ?case by simp
next
  case (Cons e L)
  show ?case
  proof (cases "RtlCompareUnicodeString upcase name (FileName e) = 0")
    case True
    then have n: "map upcase (FileName e) = map upcase name"
      by (simp add: RtlCompareUnicodeString_zero_iff)
    have a: "a = Address e" and l: "L' = e\<lparr>RefCount := RefCount e + 1\<rparr> # L"
      using Cons.prems(1) True by simp_all
    have "\<forall>y\<in>set L. Address y \<noteq> a" using Cons.prems(2) a by (auto simp: image_iff)
    then have "map (at_address a (\<lambda>e. e\<lparr>RefCount := RefCount e + 1\<rparr>)) L = L"
      by (rule map_at_address_absent)
    then show ?thesis using a l n by simp
  next
    case False
    then obtain L1 where r: "reference_entry upcase name L = Some (a, L1)" and l: "L' = e # L1"
      using Cons.prems(1) by auto
    have d: "distinct (map Address L)" using Cons.prems(2) by simp
    note ih = Cons.IH [OF r d]
    then have "a \<in> Address ` set L" by auto
    then have "Address e \<noteq> a" using Cons.prems(2) by auto
    then show ?thesis using ih l by auto
  qed
qed

lemma reference_entry_None_iff:
  "reference_entry upcase name L = None \<longleftrightarrow>
     (\<forall>e\<in>set L. map upcase (FileName e) \<noteq> map upcase name)"
  by (induction L) (auto simp: RtlCompareUnicodeString_zero_iff)

lemma LcReleaseFileLock_by_address:
  assumes "distinct (map Address L)" and "e \<in> set L" and "Address e = a"
  shows "fst (LcReleaseFileLock a L) =
           (if sint (RefCount e - 1) \<le> 0 then filter (\<lambda>x. Address x \<noteq> a) L
            else map (at_address a (\<lambda>x. x\<lparr>RefCount := RefCount x - 1, Event := True\<rparr>)) L)"
  using assms
proof (induction L)
  case Nil
  then show ?case by simp
next
  case (Cons x L)
  show ?case
  proof (cases "Address x = a")
    case True
    then have xe: "x = e" using Cons.prems by (auto simp: image_iff)
    have "\<forall>y\<in>set L. Address y \<noteq> a" using Cons.prems(1) True by (auto simp: image_iff)
    then have "filter (\<lambda>x. Address x \<noteq> a) L = L"
      and "map (at_address a (\<lambda>x. x\<lparr>RefCount := RefCount x - 1, Event := True\<rparr>)) L = L"
      by (simp_all add: map_at_address_absent)
    then show ?thesis using True xe by (simp add: Let_def)
  next
    case False
    then have "e \<in> set L" using Cons.prems by auto
    with Cons.IH Cons.prems have
      "fst (LcReleaseFileLock a L) =
           (if sint (RefCount e - 1) \<le> 0 then filter (\<lambda>x. Address x \<noteq> a) L
            else map (at_address a (\<lambda>x. x\<lparr>RefCount := RefCount x - 1, Event := True\<rparr>)) L)"
      by simp
    moreover obtain L1 f where "LcReleaseFileLock a L = (L1, f)"
      by (cases "LcReleaseFileLock a L")
    ultimately show ?thesis using False by simp
  qed
qed

lemma event_signaled_by_address:
  assumes "distinct (map Address L)" and "e \<in> set L" and "Address e = a"
  shows "event_signaled a L = Event e"
  using assms
proof (induction L)
  case Nil
  then show ?case by simp
next
  case (Cons x L)
  then show ?case by (cases "Address x = a") (auto simp: event_signaled_def image_iff)
qed

text \<open>The invariant, taken apart and put together.\<close>

lemma consistentI:
  assumes "length ps = length names" and "distinct (map Address L)"
    and "\<And>e1 e2. e1 \<in> set L \<Longrightarrow> e2 \<in> set L \<Longrightarrow>
           map upcase (FileName e1) = map upcase (FileName e2) \<Longrightarrow> Address e1 = Address e2"
    and "\<And>e. e \<in> set L \<Longrightarrow> 0 < number (holds (Address e)) ps"
    and "\<And>e. e \<in> set L \<Longrightarrow> RefCount e = of_nat (number (holds (Address e)) ps)"
    and "\<And>e. e \<in> set L \<Longrightarrow> number (owns (Address e)) ps + of_bool (Event e) = 1"
    and "\<And>t a. t < length ps \<Longrightarrow> holds a (ps ! t) \<Longrightarrow>
           \<exists>e\<in>set L. Address e = a \<and> map upcase (FileName e) = map upcase (names ! t)"
  shows "lock_list_consistent upcase names L ps"
  unfolding lock_list_consistent_def using assms by blast

lemma consistent_length: "lock_list_consistent upcase names L ps \<Longrightarrow> length ps = length names"
  by (simp add: lock_list_consistent_def)

lemma consistent_distinct: "lock_list_consistent upcase names L ps \<Longrightarrow> distinct (map Address L)"
  by (simp add: lock_list_consistent_def)

lemma consistent_one_entry:
  "lock_list_consistent upcase names L ps \<Longrightarrow> e1 \<in> set L \<Longrightarrow> e2 \<in> set L \<Longrightarrow>
   map upcase (FileName e1) = map upcase (FileName e2) \<Longrightarrow> Address e1 = Address e2"
  unfolding lock_list_consistent_def by blast

lemma consistent_held:
  "lock_list_consistent upcase names L ps \<Longrightarrow> e \<in> set L \<Longrightarrow>
   0 < number (holds (Address e)) ps"
  unfolding lock_list_consistent_def by blast

lemma consistent_RefCount:
  "lock_list_consistent upcase names L ps \<Longrightarrow> e \<in> set L \<Longrightarrow>
   RefCount e = of_nat (number (holds (Address e)) ps)"
  unfolding lock_list_consistent_def by blast

lemma consistent_owner:
  "lock_list_consistent upcase names L ps \<Longrightarrow> e \<in> set L \<Longrightarrow>
   number (owns (Address e)) ps + of_bool (Event e) = 1"
  unfolding lock_list_consistent_def by blast

lemma consistent_entry:
  "lock_list_consistent upcase names L ps \<Longrightarrow> t < length ps \<Longrightarrow> holds a (ps ! t) \<Longrightarrow>
   \<exists>e\<in>set L. Address e = a \<and> map upcase (FileName e) = map upcase (names ! t)"
  unfolding lock_list_consistent_def by blast

lemma same_address_same_entry:
  "distinct (map Address L) \<Longrightarrow> e1 \<in> set L \<Longrightarrow> e2 \<in> set L \<Longrightarrow> Address e1 = Address e2
   \<Longrightarrow> e1 = e2"
  by (meson distinct_map inj_onD)

text \<open>A step that changes neither what the access holds nor what it owns.\<close>

lemma consistent_neutral:
  assumes c: "lock_list_consistent upcase names L ps" and t: "t < length ps"
    and h: "\<And>a. holds a p = holds a (ps ! t)" and o: "\<And>a. owns a p = owns a (ps ! t)"
  shows "lock_list_consistent upcase names L (ps[t := p])"
proof (rule consistentI)
  have nh: "number (holds a) (ps[t := p]) = number (holds a) ps" for a
    using t h by (rule number_update_same)
  have no: "number (owns a) (ps[t := p]) = number (owns a) ps" for a
    using t o by (rule number_update_same)
  show "length (ps[t := p]) = length names" using c by (simp add: consistent_length)
  show "distinct (map Address L)" using c by (rule consistent_distinct)
  show "Address e1 = Address e2"
    if "e1 \<in> set L" "e2 \<in> set L" "map upcase (FileName e1) = map upcase (FileName e2)" for e1 e2
    using c that by (rule consistent_one_entry)
  show "0 < number (holds (Address e)) (ps[t := p])" if "e \<in> set L" for e
    unfolding nh using c that by (rule consistent_held)
  show "RefCount e = of_nat (number (holds (Address e)) (ps[t := p]))" if "e \<in> set L" for e
    unfolding nh using c that by (rule consistent_RefCount)
  show "number (owns (Address e)) (ps[t := p]) + of_bool (Event e) = 1" if "e \<in> set L" for e
    unfolding no using c that by (rule consistent_owner)
  show "\<exists>e\<in>set L. Address e = a \<and> map upcase (FileName e) = map upcase (names ! u)"
    if "u < length (ps[t := p])" "holds a (ps[t := p] ! u)" for u a
  proof -
    have "u < length ps" using that(1) by simp
    moreover have "holds a (ps ! u)"
      using that(2) t h by (cases "u = t") simp_all
    ultimately show ?thesis using c consistent_entry by blast
  qed
qed

lemma FileName_at_address [simp]:
  "(\<And>x. FileName (f x) = FileName x) \<Longrightarrow> FileName (at_address a f e) = FileName e"
  by (simp add: at_address_def)

lemma map_Address_at_address:
  "(\<And>x. Address (f x) = Address x) \<Longrightarrow> map Address (map (at_address a f) L) = map Address L"
  by (induction L) simp_all

text \<open>\<open>LcGetFileLock\<close> finding the entry of the file.\<close>

lemma consistent_acquire_existing:
  assumes c: "lock_list_consistent upcase names L ps" and t: "t < length ps"
    and nh: "\<And>b. \<not> holds b (ps ! t)"
    and e: "e \<in> set L" "Address e = a" "map upcase (FileName e) = map upcase (names ! t)"
  shows "lock_list_consistent upcase names
           (map (at_address a (\<lambda>e. e\<lparr>RefCount := RefCount e + 1\<rparr>)) L) (ps[t := AtTestEvent a])"
proof (rule consistentI)
  let ?f = "\<lambda>e. e\<lparr>RefCount := RefCount e + 1\<rparr>"
  let ?L = "map (at_address a ?f) L"
  let ?ps = "ps[t := AtTestEvent a]"
  have hn: "number (holds b) ?ps = number (holds b) ps + of_bool (b = a)" for b
    using number_update [OF t, of "holds b" "AtTestEvent a"] nh [of b] by simp
  have on: "number (owns b) ?ps = number (owns b) ps" for b
  proof -
    have "\<not> owns b (ps ! t)" using nh [of b] owns_holds [of b "ps ! t"] by blast
    then show ?thesis using number_update [OF t, of "owns b" "AtTestEvent a"] by simp
  qed
  have src: "\<exists>x\<in>set L. y = at_address a ?f x" if "y \<in> set ?L" for y
    using that by auto
  show "length ?ps = length names" using c by (simp add: consistent_length)
  have "map Address ?L = map Address L" by (rule map_Address_at_address) simp
  then show "distinct (map Address ?L)" using c by (simp only: consistent_distinct)
  show "Address e1 = Address e2"
    if h: "e1 \<in> set ?L" "e2 \<in> set ?L" "map upcase (FileName e1) = map upcase (FileName e2)" for e1 e2
  proof -
    obtain x1 x2 where x: "x1 \<in> set L" "e1 = at_address a ?f x1" "x2 \<in> set L" "e2 = at_address a ?f x2"
      using src h(1,2) by blast
    then have "map upcase (FileName x1) = map upcase (FileName x2)" using h(3) by simp
    then have "Address x1 = Address x2" using c x(1,3) consistent_one_entry by blast
    then show ?thesis using x by simp
  qed
  show "0 < number (holds (Address y)) ?ps" if h: "y \<in> set ?L" for y
  proof -
    obtain x where x: "x \<in> set L" "y = at_address a ?f x" using src h by blast
    then have "0 < number (holds (Address x)) ps" using c consistent_held by blast
    then show ?thesis using x by (simp add: hn)
  qed
  show "RefCount y = of_nat (number (holds (Address y)) ?ps)" if h: "y \<in> set ?L" for y
  proof -
    obtain x where x: "x \<in> set L" "y = at_address a ?f x" using src h by blast
    then have r: "RefCount x = of_nat (number (holds (Address x)) ps)"
      using c consistent_RefCount by blast
    show ?thesis using x r by (cases "Address x = a") (simp_all add: hn)
  qed
  show "number (owns (Address y)) ?ps + of_bool (Event y) = 1" if h: "y \<in> set ?L" for y
  proof -
    obtain x where x: "x \<in> set L" "y = at_address a ?f x" using src h by blast
    then have r: "number (owns (Address x)) ps + of_bool (Event x) = 1"
      using c consistent_owner by blast
    show ?thesis using x r by (cases "Address x = a") (simp_all add: on)
  qed
  show "\<exists>y\<in>set ?L. Address y = b \<and> map upcase (FileName y) = map upcase (names ! u)"
    if "u < length ?ps" "holds b (?ps ! u)" for u b
  proof -
    have "\<exists>x\<in>set L. Address x = b \<and> map upcase (FileName x) = map upcase (names ! u)"
    proof (cases "u = t")
      case True
      with that t have "b = a" by simp
      with e True show ?thesis by blast
    next
      case False
      with that have "u < length ps" "holds b (ps ! u)" by simp_all
      with c consistent_entry show ?thesis by blast
    qed
    then obtain x where x: "x \<in> set L" "Address x = b"
      "map upcase (FileName x) = map upcase (names ! u)" by blast
    have "at_address a ?f x \<in> set ?L" using x(1) by simp
    moreover have "Address (at_address a ?f x) = b" using x(2) by simp
    moreover have "map upcase (FileName (at_address a ?f x)) = map upcase (names ! u)"
      using x(3) by simp
    ultimately show ?thesis by blast
  qed
qed

lemma number_zero_iff: "number P ps = 0 \<longleftrightarrow> (\<forall>u<length ps. \<not> P (ps ! u))"
  by (auto simp: number_def filter_empty_conv all_set_conv_all_nth)

lemma holds_unique: "holds a p \<Longrightarrow> holds b p \<Longrightarrow> a = b"
  by (cases p) auto

lemma nobody_holds_fresh:
  assumes c: "lock_list_consistent upcase names L ps" and f: "a \<notin> Address ` set L"
  shows "number (holds a) ps = 0" and "number (owns a) ps = 0"
proof -
  have h: "\<not> holds a (ps ! u)" if "u < length ps" for u
    using consistent_entry [OF c that, of a] f by auto
  then show "number (holds a) ps = 0" by (simp add: number_zero_iff)
  show "number (owns a) ps = 0" using h owns_holds by (auto simp: number_zero_iff)
qed

text \<open>\<open>LcGetFileLock\<close> adding an entry for the file.\<close>

lemma consistent_acquire_new:
  assumes c: "lock_list_consistent upcase names L ps" and t: "t < length ps"
    and nh: "\<And>b. \<not> holds b (ps ! t)"
    and f: "a \<notin> Address ` set L"
    and m: "\<forall>e\<in>set L. map upcase (FileName e) \<noteq> map upcase (names ! t)"
  shows "lock_list_consistent upcase names
           ((new_lock_entry (names ! t) a)
              \<lparr>RefCount := RefCount (new_lock_entry (names ! t) a) + 1\<rparr> # L)
           (ps[t := AtTestEvent a])"
proof (rule consistentI)
  let ?n = "(new_lock_entry (names ! t) a)\<lparr>RefCount := RefCount (new_lock_entry (names ! t) a) + 1\<rparr>"
  let ?ps = "ps[t := AtTestEvent a]"
  have n: "Address ?n = a" "FileName ?n = names ! t" "Event ?n" "RefCount ?n = 1"
    by (simp_all add: new_lock_entry_def)
  have hn: "number (holds b) ?ps = number (holds b) ps + of_bool (b = a)" for b
    using number_update [OF t, of "holds b" "AtTestEvent a"] nh [of b] by simp
  have on: "number (owns b) ?ps = number (owns b) ps" for b
  proof -
    have "\<not> owns b (ps ! t)" using nh [of b] owns_holds [of b "ps ! t"] by blast
    then show ?thesis using number_update [OF t, of "owns b" "AtTestEvent a"] by simp
  qed
  note z = nobody_holds_fresh [OF c f]
  show "length ?ps = length names" using c by (simp add: consistent_length)
  show "distinct (map Address (?n # L))"
    using consistent_distinct [OF c] f n(1) by (simp only: list.map distinct.simps set_map) simp
  show "Address e1 = Address e2"
    if h: "e1 \<in> set (?n # L)" "e2 \<in> set (?n # L)"
      "map upcase (FileName e1) = map upcase (FileName e2)" for e1 e2
  proof -
    consider "e1 = ?n" "e2 = ?n" | "e1 = ?n" "e2 \<in> set L" | "e1 \<in> set L" "e2 = ?n"
      | "e1 \<in> set L" "e2 \<in> set L"
      using h(1,2) by (simp only: set_simps insert_iff) blast
    then show ?thesis
    proof cases
      case 1
      then show ?thesis by simp
    next
      case 2
      then have "map upcase (FileName e2) = map upcase (names ! t)" using h(3) n(2) by simp
      with m 2 show ?thesis by blast
    next
      case 3
      then have "map upcase (FileName e1) = map upcase (names ! t)" using h(3) n(2) by simp
      with m 3 show ?thesis by blast
    next
      case 4
      with c h(3) consistent_one_entry show ?thesis by blast
    qed
  qed
  have cases: "(y = ?n \<and> Address y = a) \<or> (y \<in> set L \<and> Address y \<noteq> a)"
    if h: "y \<in> set (?n # L)" for y
  proof (cases "y = ?n")
    case True
    then show ?thesis using n(1) by simp
  next
    case False
    then have "y \<in> set L" using h by (simp only: set_simps insert_iff) blast
    then show ?thesis using f by auto
  qed
  show "0 < number (holds (Address y)) ?ps" if h: "y \<in> set (?n # L)" for y
    using cases [OF h] consistent_held [OF c, of y] by (auto simp: hn)
  show "RefCount y = of_nat (number (holds (Address y)) ?ps)" if h: "y \<in> set (?n # L)" for y
    using cases [OF h]
  proof
    assume "y = ?n \<and> Address y = a"
    then have y: "RefCount y = 1" "Address y = a" using n(4) by auto
    show ?thesis unfolding y hn using z(1) by simp
  next
    assume "y \<in> set L \<and> Address y \<noteq> a"
    then show ?thesis using consistent_RefCount [OF c, of y] by (simp add: hn)
  qed
  show "number (owns (Address y)) ?ps + of_bool (Event y) = 1" if h: "y \<in> set (?n # L)" for y
    using cases [OF h]
  proof
    assume "y = ?n \<and> Address y = a"
    then have y: "Event y" "Address y = a" using n(3) by auto
    show ?thesis unfolding on using y z(2) by simp
  next
    assume "y \<in> set L \<and> Address y \<noteq> a"
    then show ?thesis using consistent_owner [OF c, of y] by (simp add: on)
  qed
  show "\<exists>y\<in>set (?n # L). Address y = b \<and> map upcase (FileName y) = map upcase (names ! u)"
    if h: "u < length ?ps" "holds b (?ps ! u)" for u b
  proof (cases "u = t")
    case True
    with h t have "b = a" by simp
    then have m: "Address ?n = b \<and> map upcase (FileName ?n) = map upcase (names ! u)"
      using n(1,2) True by simp
    show ?thesis by (rule bexI [where x = ?n], rule m) (simp only: list.set_intros(1))
  next
    case False
    with h have "u < length ps" "holds b (ps ! u)" by simp_all
    with c consistent_entry obtain x where x: "x \<in> set L" and m: "Address x = b \<and>
      map upcase (FileName x) = map upcase (names ! u)" by blast
    show ?thesis by (rule bexI [where x = x], rule m) (simp only: list.set_intros(2) x)
  qed
qed

text \<open>A satisfied wait.\<close>

lemma consistent_consume:
  assumes c: "lock_list_consistent upcase names L ps" and t: "t < length ps"
    and p: "holds a (ps ! t)" "\<not> owns a (ps ! t)"
    and p': "\<And>b. holds b p' = (b = a)" "\<And>b. owns b p' = (b = a)"
    and e: "e \<in> set L" "Address e = a" "Event e"
  shows "lock_list_consistent upcase names (reset_event a L) (ps[t := p'])"
proof (rule consistentI)
  let ?f = "\<lambda>e. e\<lparr>Event := False\<rparr>"
  let ?L = "map (at_address a ?f) L"
  let ?ps = "ps[t := p']"
  have L: "reset_event a L = ?L" by (simp add: reset_event_def at_address_def)
  have hb: "holds b (ps ! t) = (b = a)" for b using p(1) holds_unique by blast
  have ob: "\<not> owns b (ps ! t)" for b by (metis p(2) hb owns_holds)
  have hn: "number (holds b) ?ps = number (holds b) ps" for b
    using t by (rule number_update_same) (simp add: hb p'(1))
  have on: "number (owns b) ?ps = number (owns b) ps + of_bool (b = a)" for b
    using number_update [OF t, of "owns b" p'] ob [of b] p'(2) [of b] by simp
  have src: "\<exists>x\<in>set L. y = at_address a ?f x" if "y \<in> set (reset_event a L)" for y
    using that unfolding L by auto
  have d: "distinct (map Address L)" using c by (rule consistent_distinct)
  show "length ?ps = length names" using c by (simp add: consistent_length)
  have "map Address ?L = map Address L" by (rule map_Address_at_address) simp
  then show "distinct (map Address (reset_event a L))" using d by (simp only: L)
  show "Address e1 = Address e2"
    if h: "e1 \<in> set (reset_event a L)" "e2 \<in> set (reset_event a L)"
      "map upcase (FileName e1) = map upcase (FileName e2)" for e1 e2
  proof -
    obtain x1 x2 where x: "x1 \<in> set L" "e1 = at_address a ?f x1" "x2 \<in> set L" "e2 = at_address a ?f x2"
      using src h(1,2) by blast
    then have "map upcase (FileName x1) = map upcase (FileName x2)" using h(3) by simp
    then have "Address x1 = Address x2" using c x(1,3) consistent_one_entry by blast
    then show ?thesis using x by simp
  qed
  show "0 < number (holds (Address y)) ?ps" if h: "y \<in> set (reset_event a L)" for y
  proof -
    obtain x where x: "x \<in> set L" "y = at_address a ?f x" using src h by blast
    then have "0 < number (holds (Address x)) ps" using c consistent_held by blast
    then show ?thesis using x by (simp add: hn)
  qed
  show "RefCount y = of_nat (number (holds (Address y)) ?ps)" if h: "y \<in> set (reset_event a L)" for y
  proof -
    obtain x where x: "x \<in> set L" "y = at_address a ?f x" using src h by blast
    then have r: "RefCount x = of_nat (number (holds (Address x)) ps)"
      using c consistent_RefCount by blast
    show ?thesis using x r by (cases "Address x = a") (simp_all add: hn)
  qed
  show "number (owns (Address y)) ?ps + of_bool (Event y) = 1" if h: "y \<in> set (reset_event a L)" for y
  proof -
    obtain x where x: "x \<in> set L" "y = at_address a ?f x" using src h by blast
    then have r: "number (owns (Address x)) ps + of_bool (Event x) = 1"
      using c consistent_owner by blast
    show ?thesis
    proof (cases "Address x = a")
      case True
      then have "x = e" using same_address_same_entry [OF d x(1) e(1)] e(2) by simp
      then have "number (owns a) ps = 0" using r e(2,3) by simp
      then show ?thesis using x True by (simp add: on)
    next
      case False
      then show ?thesis using x r by (simp add: on)
    qed
  qed
  show "\<exists>y\<in>set (reset_event a L). Address y = b \<and> map upcase (FileName y) = map upcase (names ! u)"
    if h: "u < length ?ps" "holds b (?ps ! u)" for u b
  proof -
    have "u < length ps" using h(1) by simp
    moreover have "holds b (ps ! u)"
      using h(2) t by (cases "u = t") (simp_all add: hb p'(1))
    ultimately obtain x where x: "x \<in> set L" "Address x = b"
      "map upcase (FileName x) = map upcase (names ! u)"
      using c consistent_entry by blast
    have "at_address a ?f x \<in> set (reset_event a L)" using x(1) unfolding L by simp
    moreover have "Address (at_address a ?f x) = b" using x(2) by simp
    moreover have "map upcase (FileName (at_address a ?f x)) = map upcase (names ! u)"
      using x(3) by simp
    ultimately show ?thesis by blast
  qed
qed

lemma sint_of_nat_small:
  assumes "k < 2 ^ 31"
  shows "sint (of_nat k :: 32 word) = int k"
proof -
  have u: "uint (of_nat k :: 32 word) = int k"
    using assms by (simp add: unsigned_of_nat take_bit_eq_mod)
  have "sint (of_nat k :: 32 word) = signed_take_bit 31 (uint (of_nat k :: 32 word))"
    by (simp add: sint_uint)
  also have "\<dots> = int k"
    unfolding u using assms by (intro signed_take_bit_int_eq_self) auto
  finally show ?thesis .
qed
lemma last_holder:
  assumes "0 < h" "h < 2 ^ 31"
  shows "sint ((of_nat h :: 32 word) - 1) \<le> 0 \<longleftrightarrow> h = 1"
proof -
  have "(of_nat h :: 32 word) - 1 = of_nat (h - 1)" using assms(1) by (simp add: of_nat_diff)
  moreover have "h - 1 < 2 ^ 31" using assms(2) by simp
  ultimately have "sint ((of_nat h :: 32 word) - 1) = int (h - 1)"
    by (simp only: sint_of_nat_small)
  then show ?thesis using assms(1) by auto
qed

text \<open>\<open>LcReleaseFileLock\<close> by an access that owns the event.\<close>

lemma consistent_release:
  assumes c: "lock_list_consistent upcase names L ps" and t: "t < length ps"
    and p: "ps ! t = AtRelease a cs" and n: "length names < 2 ^ 31"
  shows "lock_list_consistent upcase names (fst (LcReleaseFileLock a L)) (ps[t := Exited cs])"
proof -
  let ?ps = "ps[t := Exited cs]"
  let ?f = "\<lambda>x. x\<lparr>RefCount := RefCount x - 1, Event := True\<rparr>"
  have d: "distinct (map Address L)" using c by (rule consistent_distinct)
  obtain e where e: "e \<in> set L" "Address e = a"
    using consistent_entry [OF c t, of a] p by auto
  let ?h = "number (holds a) ps"
  have h0: "0 < ?h" using consistent_held [OF c e(1)] e(2) by simp
  have hl: "?h < 2 ^ 31"
    using number_le_length [of "holds a" ps] consistent_length [OF c] n by simp
  have r: "RefCount e = of_nat ?h" using consistent_RefCount [OF c e(1)] e(2) by simp
  have last: "sint (RefCount e - 1) \<le> 0 \<longleftrightarrow> ?h = 1"
    unfolding r using h0 hl by (rule last_holder)
  have hn: "number (holds b) ?ps + of_bool (b = a) = number (holds b) ps" for b
    using number_update [OF t, of "holds b" "Exited cs"] p by simp
  have on: "number (owns b) ?ps + of_bool (b = a) = number (owns b) ps" for b
    using number_update [OF t, of "owns b" "Exited cs"] p by simp
  have len: "length ?ps = length names" using c by (simp add: consistent_length)
  have old: "u < length ps \<and> holds b (ps ! u) \<and> u \<noteq> t"
    if "u < length ?ps" "holds b (?ps ! u)" for u b
    using that t by (cases "u = t") simp_all
  show ?thesis
  proof (cases "?h = 1")
    case True
    let ?L = "filter (\<lambda>x. Address x \<noteq> a) L"
    have L: "fst (LcReleaseFileLock a L) = ?L"
      using LcReleaseFileLock_by_address [OF d e] last True by simp
    have gone: "\<not> holds a (?ps ! u)" if "u < length ?ps" for u
    proof -
      have "number (holds a) ?ps = 0" using hn [of a] True by simp
      then show ?thesis using that by (simp add: number_zero_iff)
    qed
    show ?thesis
      unfolding L
    proof (rule consistentI)
      show "length ?ps = length names" by (rule len)
      show "distinct (map Address ?L)" using d by (rule distinct_map_filter)
      show "Address e1 = Address e2"
        if h: "e1 \<in> set ?L" "e2 \<in> set ?L" "map upcase (FileName e1) = map upcase (FileName e2)"
        for e1 e2
        using consistent_one_entry [OF c _ _ h(3)] h(1,2) by simp
      show "0 < number (holds (Address y)) ?ps" if h: "y \<in> set ?L" for y
        using consistent_held [OF c, of y] hn [of "Address y"] h by simp
      show "RefCount y = of_nat (number (holds (Address y)) ?ps)" if h: "y \<in> set ?L" for y
        using consistent_RefCount [OF c, of y] hn [of "Address y"] h by simp
      show "number (owns (Address y)) ?ps + of_bool (Event y) = 1" if h: "y \<in> set ?L" for y
        using consistent_owner [OF c, of y] on [of "Address y"] h by simp
      show "\<exists>y\<in>set ?L. Address y = b \<and> map upcase (FileName y) = map upcase (names ! u)"
        if h: "u < length ?ps" "holds b (?ps ! u)" for u b
      proof -
        have "b \<noteq> a" using gone [OF h(1)] h(2) by auto
        moreover obtain x where "x \<in> set L" "Address x = b"
          "map upcase (FileName x) = map upcase (names ! u)"
          using consistent_entry [OF c, of u b] old [OF h] by blast
        ultimately show ?thesis by auto
      qed
    qed
  next
    case False
    then have h2: "1 < ?h" using h0 by simp
    let ?L = "map (at_address a ?f) L"
    have L: "fst (LcReleaseFileLock a L) = ?L"
      using LcReleaseFileLock_by_address [OF d e] last False by simp
    have src: "\<exists>x\<in>set L. y = at_address a ?f x" if "y \<in> set ?L" for y
      using that by auto
    have own: "number (owns a) ps = 1 \<and> \<not> Event e"
    proof -
      have "0 < number (owns a) ps" using t by (rule number_pos) (simp add: p)
      then show ?thesis using consistent_owner [OF c e(1)] e(2) by (cases "Event e") simp_all
    qed
    show ?thesis
      unfolding L
    proof (rule consistentI)
      show "length ?ps = length names" by (rule len)
      have "map Address ?L = map Address L" by (rule map_Address_at_address) simp
      then show "distinct (map Address ?L)" using d by (simp only:)
      show "Address e1 = Address e2"
        if h: "e1 \<in> set ?L" "e2 \<in> set ?L" "map upcase (FileName e1) = map upcase (FileName e2)"
        for e1 e2
      proof -
        obtain x1 x2 where x: "x1 \<in> set L" "e1 = at_address a ?f x1" "x2 \<in> set L" "e2 = at_address a ?f x2"
          using src h(1,2) by blast
        then have "map upcase (FileName x1) = map upcase (FileName x2)" using h(3) by simp
        then have "Address x1 = Address x2" using c x(1,3) consistent_one_entry by blast
        then show ?thesis using x by simp
      qed
      show "0 < number (holds (Address y)) ?ps" if h: "y \<in> set ?L" for y
      proof -
        obtain x where x: "x \<in> set L" "y = at_address a ?f x" using src h by blast
        have "0 < number (holds (Address x)) ps" using c x(1) by (rule consistent_held)
        then show ?thesis using x hn [of "Address x"] h2 by (cases "Address x = a") simp_all
      qed
      show "RefCount y = of_nat (number (holds (Address y)) ?ps)" if h: "y \<in> set ?L" for y
      proof -
        obtain x where x: "x \<in> set L" "y = at_address a ?f x" using src h by blast
        have rx: "RefCount x = of_nat (number (holds (Address x)) ps)"
          using c x(1) by (rule consistent_RefCount)
        show ?thesis
        proof (cases "Address x = a")
          case True
          have "number (holds a) ps = Suc (number (holds a) ?ps)" using hn [of a] by simp
          then show ?thesis using x rx True by simp
        next
          case False
          then show ?thesis using x rx hn [of "Address x"] by simp
        qed
      qed
      show "number (owns (Address y)) ?ps + of_bool (Event y) = 1" if h: "y \<in> set ?L" for y
      proof -
        obtain x where x: "x \<in> set L" "y = at_address a ?f x" using src h by blast
        have ox: "number (owns (Address x)) ps + of_bool (Event x) = 1"
          using c x(1) by (rule consistent_owner)
        show ?thesis
        proof (cases "Address x = a")
          case True
          have "number (owns a) ?ps = 0" using on [of a] own by simp
          then show ?thesis using x True by simp
        next
          case False
          then show ?thesis using x ox on [of "Address x"] by simp
        qed
      qed
      show "\<exists>y\<in>set ?L. Address y = b \<and> map upcase (FileName y) = map upcase (names ! u)"
        if h: "u < length ?ps" "holds b (?ps ! u)" for u b
      proof -
        obtain x where x: "x \<in> set L" "Address x = b"
          "map upcase (FileName x) = map upcase (names ! u)"
          using consistent_entry [OF c, of u b] old [OF h] by blast
        have "at_address a ?f x \<in> set ?L" using x(1) by simp
        moreover have "Address (at_address a ?f x) = b" using x(2) by simp
        moreover have "map upcase (FileName (at_address a ?f x)) = map upcase (names ! u)"
          using x(3) by simp
        ultimately show ?thesis by blast
      qed
    qed
  qed
qed

lemma moved_simps [simp]:
  "positions (moved t p s) = (positions s)[t := p]"
  "FileLocksList (moved t p s) = FileLocksList s"
  "tagged (moved t p s) = tagged s"
  "stream_context (moved t p s) = stream_context s"
  "fetch_calls (moved t p s) = fetch_calls s"
  "freed_live (moved t p s) = freed_live s"
  by (simp_all add: moved_def)

lemma LcGetFileLock_Event [simp]:
  "(if NT_SUCCESS (gl_status (LcGetFileLock upcase alloc copy name L))
    then gl_Event (LcGetFileLock upcase alloc copy name L) else None) =
   gl_Event (LcGetFileLock upcase alloc copy name L)"
  by (simp add: LcGetFileLock_def Let_def split: option.splits)

lemma LcGetFileLock_cases:
  assumes d: "distinct (map Address L)"
  obtains (none) "gl_Event (LcGetFileLock upcase alloc copy name L) = None"
    | (old) a e where "gl_Event (LcGetFileLock upcase alloc copy name L) = Some a"
        "e \<in> set L" "Address e = a" "map upcase (FileName e) = map upcase name"
        "gl_list (LcGetFileLock upcase alloc copy name L) =
           map (at_address a (\<lambda>e. e\<lparr>RefCount := RefCount e + 1\<rparr>)) L"
    | (new) a where "gl_Event (LcGetFileLock upcase alloc copy name L) = Some a"
        "alloc = Some a" "\<forall>e\<in>set L. map upcase (FileName e) \<noteq> map upcase name"
        "gl_list (LcGetFileLock upcase alloc copy name L) =
           (new_lock_entry name a)\<lparr>RefCount := RefCount (new_lock_entry name a) + 1\<rparr> # L"
proof (cases "reference_entry upcase name L")
  case None
  then have m: "\<forall>e\<in>set L. map upcase (FileName e) \<noteq> map upcase name"
    by (simp add: reference_entry_None_iff)
  show ?thesis
  proof (cases alloc)
    case N: None
    then have "gl_Event (LcGetFileLock upcase alloc copy name L) = None"
      using None by (simp add: LcGetFileLock_def)
    then show ?thesis by (rule none)
  next
    case (Some a)
    show ?thesis
    proof (cases "NT_SUCCESS copy")
      case True
      have "gl_Event (LcGetFileLock upcase alloc copy name L) = Some a"
        "gl_list (LcGetFileLock upcase alloc copy name L) =
           (new_lock_entry name a)\<lparr>RefCount := RefCount (new_lock_entry name a) + 1\<rparr> # L"
        using None Some True by (simp_all add: LcGetFileLock_def Let_def)
      then show ?thesis using Some m new by blast
    next
      case False
      then have "gl_Event (LcGetFileLock upcase alloc copy name L) = None"
        using None Some by (simp add: LcGetFileLock_def)
      then show ?thesis by (rule none)
    qed
  qed
next
  case (Some r)
  obtain a L' where r: "r = (a, L')" by (cases r)
  note x = reference_entry_Some [OF Some [unfolded r] d]
  have g: "gl_Event (LcGetFileLock upcase alloc copy name L) = Some a"
    "gl_list (LcGetFileLock upcase alloc copy name L) = L'"
    using Some r by (simp_all add: LcGetFileLock_def)
  obtain e where "e \<in> set L" "Address e = a" "map upcase (FileName e) = map upcase name"
    using x by blast
  then show ?thesis using g x old by blast
qed

text \<open>Every step of an access keeps the list of locks consistent.\<close>

lemma access_step_consistent:
  assumes c: "locks_consistent upcase names s" and t: "t < length names"
    and f: "fresh_alloc env s" and n: "length names < 2 ^ 31"
  shows "locks_consistent upcase names (access_step upcase names env t s)"
proof -
  let ?L = "FileLocksList s" and ?ps = "positions s"
  have c': "lock_list_consistent upcase names ?L ?ps" using c by (simp add: locks_consistent_def)
  have t': "t < length ?ps" using t consistent_length [OF c'] by simp
  have d: "distinct (map Address ?L)" using c' by (rule consistent_distinct)
  have neutral: "locks_consistent upcase names (moved t p s')"
    if "FileLocksList s' = ?L" "positions s' = ?ps"
       "\<And>a. holds a p = holds a (?ps ! t)" "\<And>a. owns a p = owns a (?ps ! t)" for p s'
    using consistent_neutral [OF c' t' that(3,4)] that(1,2) by (simp add: locks_consistent_def)
  show ?thesis
  proof (cases "?ps ! t")
    case AtEntry
    then show ?thesis
      by (auto simp: access_step_def Let_def intro!: neutral)
  next
    case AtGetFileLock
    let ?r = "LcGetFileLock upcase (ae_alloc env) (ae_copy env) (names ! t) ?L"
    have nh: "\<not> holds b (?ps ! t)" for b using AtGetFileLock by simp
    show ?thesis
    proof (rule LcGetFileLock_cases [OF d, of upcase "ae_alloc env" "ae_copy env" "names ! t"],
        goal_cases none old new)
      case none
      then show ?thesis
        using AtGetFileLock by (auto simp: access_step_def Let_def intro!: neutral)
    next
      case (old a e)
      have "lock_list_consistent upcase names (gl_list ?r) (?ps[t := AtTestEvent a])"
        unfolding old(5) using c' t' nh old(2,3,4) by (rule consistent_acquire_existing)
      then show ?thesis
        using AtGetFileLock old(1) by (simp add: access_step_def Let_def locks_consistent_def)
    next
      case (new a)
      have fr: "a \<notin> Address ` set ?L" using f new(2) by (simp add: fresh_alloc_def)
      have "lock_list_consistent upcase names (gl_list ?r) (?ps[t := AtTestEvent a])"
        unfolding new(4) using c' t' nh fr new(3) by (rule consistent_acquire_new)
      then show ?thesis
        using AtGetFileLock new(1) by (simp add: access_step_def Let_def locks_consistent_def)
    qed
  next
    case (AtTestEvent a)
    obtain e where e: "e \<in> set ?L" "Address e = a"
      using consistent_entry [OF c' t', of a] AtTestEvent by auto
    have ev: "event_signaled a ?L = Event e" using d e by (rule event_signaled_by_address)
    show ?thesis
    proof (cases "Event e")
      case True
      have "lock_list_consistent upcase names (reset_event a ?L) (?ps[t := AtQueryTag a])"
        using c' t' by (rule consistent_consume) (use AtTestEvent e True in simp_all)
      then show ?thesis
        using AtTestEvent ev True by (simp add: access_step_def Let_def locks_consistent_def)
    next
      case False
      then show ?thesis
        using AtTestEvent ev by (auto simp: access_step_def Let_def intro!: neutral)
    qed
  next
    case (Waiting a)
    obtain e where e: "e \<in> set ?L" "Address e = a"
      using consistent_entry [OF c' t', of a] Waiting by auto
    have ev: "event_signaled a ?L = Event e" using d e by (rule event_signaled_by_address)
    show ?thesis
    proof (cases "Event e")
      case True
      have "lock_list_consistent upcase names (reset_event a ?L)
              (?ps[t := AtRelease a FLT_PREOP_SUCCESS_NO_CALLBACK])"
        using c' t' by (rule consistent_consume) (use Waiting e True in simp_all)
      then show ?thesis
        using Waiting ev True by (simp add: access_step_def Let_def locks_consistent_def)
    next
      case False
      then show ?thesis
        using Waiting ev c by (simp add: access_step_def Let_def)
    qed
  next
    case (AtQueryTag a)
    then show ?thesis
      by (auto simp: access_step_def Let_def intro!: neutral)
  next
    case (InFetch a)
    then show ?thesis
      by (auto simp: access_step_def Let_def intro!: neutral)
  next
    case (AtRelease a cs)
    have "lock_list_consistent upcase names (fst (LcReleaseFileLock a ?L)) (?ps[t := Exited cs])"
      using c' t' AtRelease n by (rule consistent_release)
    then show ?thesis
      using AtRelease by (simp add: access_step_def Let_def locks_consistent_def)
  next
    case (Exited cs)
    then show ?thesis using c by (simp add: access_step_def Let_def)
  qed
qed

lemma initial_accesses_consistent:
  "locks_consistent upcase names (initial_accesses names tags contexts)"
  unfolding locks_consistent_def
  by (rule consistentI) (simp_all add: initial_accesses_def)

lemma accesses_reach_consistent:
  assumes "accesses_reach upcase names s" and "length names < 2 ^ 31"
  shows "locks_consistent upcase names s"
  using assms
proof (induction rule: accesses_reach.induct)
  case (entry tags contexts)
  show ?case by (rule initial_accesses_consistent)
next
  case (step s t env)
  then show ?case using access_step_consistent by blast
qed

lemma run_accesses_reach:
  "run_accesses upcase names sched s = Some s' \<Longrightarrow> accesses_reach upcase names s \<Longrightarrow>
   accesses_reach upcase names s'"
proof (induction sched arbitrary: s)
  case Nil
  then show ?case by simp
next
  case (Cons x sched)
  obtain t env where x: "x = (t, env)" by (cases x)
  have g: "t < length names" "fresh_alloc env s"
    and r: "run_accesses upcase names sched (access_step upcase names env t s) = Some s'"
    using Cons.prems(1) x by (simp_all split: if_splits)
  have "accesses_reach upcase names (access_step upcase names env t s)"
    using Cons.prems(2) g by (rule accesses_reach.step)
  with r show ?case by (rule Cons.IH)
qed

lemma number_two:
  assumes "t < length ps" "u < length ps" "t \<noteq> u" "P (ps ! t)" "P (ps ! u)" "\<not> P q"
  shows "2 \<le> number P ps"
proof -
  have "number P (ps[t := q]) + 1 = number P ps"
    using number_update [OF assms(1), of P q] assms(4,6) by simp
  moreover have "0 < number P (ps[t := q])"
    by (rule number_pos [of u]) (use assms in simp_all)
  ultimately show ?thesis by simp
qed

text \<open>Two accesses to one file do not own its event together.\<close>

lemma one_owner:
  assumes c: "locks_consistent upcase names s"
    and t: "t < length names" "u < length names" "t \<noteq> u"
    and f: "map upcase (names ! t) = map upcase (names ! u)"
    and o: "owns a (positions s ! t)" "owns b (positions s ! u)"
  shows False
proof -
  let ?L = "FileLocksList s" and ?ps = "positions s"
  have c': "lock_list_consistent upcase names ?L ?ps" using c by (simp add: locks_consistent_def)
  have l: "t < length ?ps" "u < length ?ps" using t consistent_length [OF c'] by simp_all
  obtain e1 where e1: "e1 \<in> set ?L" "Address e1 = a" "map upcase (FileName e1) = map upcase (names ! t)"
    using consistent_entry [OF c' l(1), of a] o(1) owns_holds by blast
  obtain e2 where e2: "e2 \<in> set ?L" "Address e2 = b" "map upcase (FileName e2) = map upcase (names ! u)"
    using consistent_entry [OF c' l(2), of b] o(2) owns_holds by blast
  have "a = b" using consistent_one_entry [OF c' e1(1) e2(1)] e1(2,3) e2(2,3) f by simp
  then have "2 \<le> number (owns a) ?ps"
    using number_two [OF l t(3), of "owns a" AtEntry] o by simp
  moreover have "number (owns a) ?ps \<le> 1"
    using consistent_owner [OF c' e1(1)] e1(2) by simp
  ultimately show False by simp
qed

text \<open>What one step does to the positions.\<close>

lemma access_step_others:
  "u \<noteq> t \<Longrightarrow> positions (access_step upcase names env t s) ! u = positions s ! u"
  by (cases "positions s ! t")
     (auto simp: access_step_def Let_def split: option.splits)

lemma access_step_length:
  "length (positions (access_step upcase names env t s)) = length (positions s)"
  by (cases "positions s ! t")
     (auto simp: access_step_def Let_def split: option.splits)

lemma event_signaled_reset_event: "\<not> event_signaled a (reset_event a L)"
  by (induction L) (auto simp: event_signaled_def reset_event_def)

lemma access_step_enters_fetch:
  assumes "t < length (positions s)"
    and "positions (access_step upcase names env t s) ! t = InFetch a"
    and "positions s ! t \<noteq> InFetch a"
  shows "positions s ! t = AtQueryTag a \<and> tagged s (map upcase (names ! t)) \<and>
         fetch_calls (access_step upcase names env t s) =
           (fetch_calls s)[t := Suc (fetch_calls s ! t)]"
  using assms
  by (cases "positions s ! t")
     (auto simp: access_step_def Let_def split: option.splits if_splits)

lemma access_step_consumes:
  assumes "t < length (positions s)"
    and "positions (access_step upcase names env t s) ! t = AtQueryTag a"
    and "positions s ! t \<noteq> AtQueryTag a"
  shows "positions s ! t = AtTestEvent a \<and> event_signaled a (FileLocksList s) \<and>
         \<not> event_signaled a (FileLocksList (access_step upcase names env t s))"
  using assms
  by (cases "positions s ! t")
     (auto simp: access_step_def Let_def event_signaled_reset_event split: option.splits if_splits)

lemma access_step_waiting:
  assumes "t < length (positions s)" and "positions s ! t = Waiting a"
  shows "(\<not> event_signaled a (FileLocksList s) \<longrightarrow> access_step upcase names env t s = s) \<and>
         (event_signaled a (FileLocksList s) \<longrightarrow>
            positions (access_step upcase names env t s) ! t =
              AtRelease a FLT_PREOP_SUCCESS_NO_CALLBACK \<and>
            fetch_calls (access_step upcase names env t s) = fetch_calls s)"
  using assms by (simp add: access_step_def)

lemma access_step_untagged:
  assumes "t < length (positions s)" and "positions s ! t = AtQueryTag a"
    and "\<not> tagged s (map upcase (names ! t))"
  shows "positions (access_step upcase names env t s) ! t =
           AtRelease a FLT_PREOP_SUCCESS_NO_CALLBACK \<and>
         fetch_calls (access_step upcase names env t s) = fetch_calls s"
  using assms by (simp add: access_step_def)

lemma access_step_release:
  assumes "t < length (positions s)" and "positions s ! t = AtRelease a callbackStatus"
  shows "positions (access_step upcase names env t s) ! t = Exited callbackStatus \<and>
         fetch_calls (access_step upcase names env t s) = fetch_calls s"
  using assms by (simp add: access_step_def)

text \<open>
  Claim C1.  In every state that fewer than \<open>2^31\<close> accesses reach, in any interleaving
  and whatever the calls return, as long as \<open>LcGetFileLock\<close> has not freed an entry that
  is in the list: when an access is in \<open>LcFetchRemoteFile\<close>, no other access to the same
  file is there, nor anywhere between its satisfied wait on the event and
  \<open>LcReleaseFileLock\<close>.  An access enters \<open>LcFetchRemoteFile\<close> only from the query of the
  tag, on a file that carries it, and gets to that query only by the wait with a zero
  timeout on a signaled event, which the wait resets.  An access in the wait without
  timeout stays there until the event is signaled and then goes to \<open>LcReleaseFileLock\<close>
  with \<open>FLT_PREOP_SUCCESS_NO_CALLBACK\<close>, as does an access that finds the tag gone, both
  without a call of \<open>LcFetchRemoteFile\<close>; \<open>LcReleaseFileLock\<close> is followed by the return
  of that status.  It does not follow that of two accesses that overlap only one calls
  \<open>LcFetchRemoteFile\<close>: see \<open>overlapping_accesses_fetch_in_turn\<close>.
\<close>

theorem one_fetcher_per_file:
  assumes "accesses_reach upcase names s" and "length names < 2 ^ 31" and "\<not> freed_live s"
  shows "(t < length names \<and> u < length names \<and> t \<noteq> u \<and>
          RtlCompareUnicodeString upcase (names ! t) (names ! u) = 0 \<and>
          positions s ! t = InFetch a \<longrightarrow>
            positions s ! u \<noteq> InFetch b \<and> \<not> owns b (positions s ! u)) \<and>
         (t < length names \<and> positions (access_step upcase names env t s) ! t = InFetch a \<and>
          positions s ! t \<noteq> InFetch a \<longrightarrow>
            positions s ! t = AtQueryTag a \<and> tagged s (map upcase (names ! t)) \<and>
            fetch_calls (access_step upcase names env t s) =
              (fetch_calls s)[t := Suc (fetch_calls s ! t)]) \<and>
         (t < length names \<and> positions (access_step upcase names env t s) ! t = AtQueryTag a \<and>
          positions s ! t \<noteq> AtQueryTag a \<longrightarrow>
            positions s ! t = AtTestEvent a \<and> event_signaled a (FileLocksList s) \<and>
            \<not> event_signaled a (FileLocksList (access_step upcase names env t s))) \<and>
         (t < length names \<and> positions s ! t = Waiting a \<longrightarrow>
            (\<not> event_signaled a (FileLocksList s) \<longrightarrow> access_step upcase names env t s = s) \<and>
            (event_signaled a (FileLocksList s) \<longrightarrow>
               positions (access_step upcase names env t s) ! t =
                 AtRelease a FLT_PREOP_SUCCESS_NO_CALLBACK \<and>
               fetch_calls (access_step upcase names env t s) = fetch_calls s)) \<and>
         (t < length names \<and> positions s ! t = AtQueryTag a \<and>
          \<not> tagged s (map upcase (names ! t)) \<longrightarrow>
            positions (access_step upcase names env t s) ! t =
              AtRelease a FLT_PREOP_SUCCESS_NO_CALLBACK \<and>
            fetch_calls (access_step upcase names env t s) = fetch_calls s) \<and>
         (t < length names \<and> positions s ! t = AtRelease a callbackStatus \<longrightarrow>
            positions (access_step upcase names env t s) ! t = Exited callbackStatus \<and>
            fetch_calls (access_step upcase names env t s) = fetch_calls s)"
proof -
  have c: "locks_consistent upcase names s"
    using assms(1,2) by (rule accesses_reach_consistent)
  have l: "length (positions s) = length names"
    using c by (simp add: locks_consistent_def consistent_length)
  have 1: "positions s ! u \<noteq> InFetch b \<and> \<not> owns b (positions s ! u)"
    if h: "t < length names \<and> u < length names \<and> t \<noteq> u \<and>
          RtlCompareUnicodeString upcase (names ! t) (names ! u) = 0 \<and>
          positions s ! t = InFetch a"
  proof -
    have f: "map upcase (names ! t) = map upcase (names ! u)"
      using h by (simp add: RtlCompareUnicodeString_zero_iff)
    have o: "owns a (positions s ! t)" using h by simp
    have "\<not> owns b (positions s ! u)"
      using one_owner [OF c _ _ _ f o, of b] h by blast
    moreover from this have "positions s ! u \<noteq> InFetch b" by auto
    ultimately show ?thesis by simp
  qed
  show ?thesis
    using 1
      access_step_enters_fetch [where t = t and s = s and upcase = upcase and names = names
        and env = env and a = a]
      access_step_consumes [where t = t and s = s and upcase = upcase and names = names
        and env = env and a = a]
      access_step_waiting [where t = t and s = s and upcase = upcase and names = names
        and env = env and a = a]
      access_step_untagged [where t = t and s = s and upcase = upcase and names = names
        and env = env and a = a]
      access_step_release [where t = t and s = s and upcase = upcase and names = names
        and env = env and a = a and callbackStatus = callbackStatus]
    unfolding l by blast
qed

text \<open>
  The theorem at a state two accesses to one file reach (the names differ in case): the
  first is in \<open>LcFetchRemoteFile\<close>, and the second, which found the event cleared, is in the
  wait without timeout.
\<close>

theorem one_fetcher_per_file_witness:
  "map_option (\<lambda>s. (positions s, fetch_calls s, freed_live s))
     (run_accesses upcase_ascii [[0x5C, 0x61], [0x5C, 0x41]]
        [(0, step_env None STATUS_SUCCESS), (0, step_env (Some 0) STATUS_SUCCESS),
         (0, step_env None STATUS_SUCCESS), (0, step_env None STATUS_SUCCESS),
         (1, step_env None STATUS_SUCCESS), (1, step_env None STATUS_SUCCESS),
         (1, step_env None STATUS_SUCCESS)]
        (initial_accesses [[0x5C, 0x61], [0x5C, 0x41]] (\<lambda>file. True) (\<lambda>file. True)))
     = Some ([InFetch 0, Waiting 0], [1, 0], False) \<and>
   \<not> owns 0 (positions (the
     (run_accesses upcase_ascii [[0x5C, 0x61], [0x5C, 0x41]]
        [(0, step_env None STATUS_SUCCESS), (0, step_env (Some 0) STATUS_SUCCESS),
         (0, step_env None STATUS_SUCCESS), (0, step_env None STATUS_SUCCESS),
         (1, step_env None STATUS_SUCCESS), (1, step_env None STATUS_SUCCESS),
         (1, step_env None STATUS_SUCCESS)]
        (initial_accesses [[0x5C, 0x61], [0x5C, 0x41]] (\<lambda>file. True) (\<lambda>file. True)))) ! 1)"
proof -
  let ?names = "[[0x5C, 0x61], [0x5C, 0x41 :: WCHAR]]"
  let ?init = "initial_accesses ?names (\<lambda>file. True) (\<lambda>file. True)"
  let ?sched = "[(0 :: nat, step_env None STATUS_SUCCESS), (0, step_env (Some 0) STATUS_SUCCESS),
         (0, step_env None STATUS_SUCCESS), (0, step_env None STATUS_SUCCESS),
         (1, step_env None STATUS_SUCCESS), (1, step_env None STATUS_SUCCESS),
         (1, step_env None STATUS_SUCCESS)]"
  let ?st = "the (run_accesses upcase_ascii ?names ?sched ?init)"
  have e: "map_option (\<lambda>s. (positions s, fetch_calls s, freed_live s))
             (run_accesses upcase_ascii ?names ?sched ?init)
           = Some ([InFetch 0, Waiting 0], [1, 0], False)"
    by code_simp
  from e [unfolded map_option_eq_Some] obtain z
    where z: "run_accesses upcase_ascii ?names ?sched ?init = Some z"
      and v: "(positions z, fetch_calls z, freed_live z) = ([InFetch 0, Waiting 0], [1, 0], False)"
    by blast
  have st: "?st = z" unfolding z by (rule option.sel)
  have p: "positions z ! 0 = InFetch 0" and f: "\<not> freed_live z"
    using v by simp_all
  have "accesses_reach upcase_ascii ?names ?init" by (rule accesses_reach.entry)
  with z have r: "accesses_reach upcase_ascii ?names z" by (rule run_accesses_reach)
  have n: "length ?names < 2 ^ 31" by simp
  have c: "RtlCompareUnicodeString upcase_ascii (?names ! 0) (?names ! 1) = 0"
    by (simp add: RtlCompareUnicodeString_zero_iff upcase_ascii_def)
  have o: "\<not> owns 0 (positions z ! 1)"
    using one_fetcher_per_file [OF r n f, where t = 0 and u = 1 and a = 0 and b = 0] p c
    by simp
  have "\<not> owns 0 (positions ?st ! 1)" unfolding st by (rule o)
  with e show ?thesis by (rule conjI)
qed

text \<open>
  Two accesses to one file that overlap and both call \<open>LcFetchRemoteFile\<close>: the second
  has entered the callback and found the stream context while the first is in
  \<open>LcFetchRemoteFile\<close>; the fetch of the first fails, it releases the lock, whose entry is
  unlinked, and returns; the second then gets a new entry with a signaled event, finds
  the tag still on the file, and fetches.
\<close>

theorem overlapping_accesses_fetch_in_turn:
  "map_option (\<lambda>s. (positions s, fetch_calls s))
     (run_accesses upcase_ascii [[0x5C, 0x61], [0x5C, 0x41]]
        [(0, step_env None STATUS_SUCCESS), (0, step_env (Some 0) STATUS_SUCCESS),
         (0, step_env None STATUS_SUCCESS), (0, step_env None STATUS_SUCCESS),
         (1, step_env None STATUS_SUCCESS)]
        (initial_accesses [[0x5C, 0x61], [0x5C, 0x41]] (\<lambda>file. True) (\<lambda>file. True)))
     = Some ([InFetch 0, AtGetFileLock], [1, 0]) \<and>
   map_option (\<lambda>s. (positions s, fetch_calls s, freed_live s))
     (run_accesses upcase_ascii [[0x5C, 0x61], [0x5C, 0x41]]
        [(0, step_env None STATUS_SUCCESS), (0, step_env (Some 0) STATUS_SUCCESS),
         (0, step_env None STATUS_SUCCESS), (0, step_env None STATUS_SUCCESS),
         (1, step_env None STATUS_SUCCESS),
         (0, step_env None STATUS_ACCESS_DENIED), (0, step_env None STATUS_SUCCESS),
         (1, step_env (Some 1) STATUS_SUCCESS), (1, step_env None STATUS_SUCCESS),
         (1, step_env None STATUS_SUCCESS)]
        (initial_accesses [[0x5C, 0x61], [0x5C, 0x41]] (\<lambda>file. True) (\<lambda>file. True)))
     = Some ([Exited FLT_PREOP_COMPLETE, InFetch 1], [1, 1], False)"
  by code_simp

end
